theory Spec2Isabelle
  imports Complex_Main "HOL-Library.Word"
begin

section \<open>Failures of the C++ code as values\<close>

text \<open>
  The parser of \<^verbatim>\<open>parser.hh\<close> signals a rejected input by an empty
  \<^verbatim>\<open>std::optional\<close>; that is \<open>None\<close> below. Everything else that stops the code is an
  \<open>error\<close>: a read past the end of a \<^verbatim>\<open>string_view\<close> or \<^verbatim>\<open>span\<close> (undefined
  behaviour in C++), the \<^verbatim>\<open>std::out_of_range\<close> exception of \<^verbatim>\<open>substr\<close>, a failed
  \<^verbatim>\<open>assert\<close>, and signed overflow of \<^verbatim>\<open>int\<close>.
\<close>

datatype error = OutOfBounds | OutOfRange | AssertionFailed | SignedOverflow

section \<open>ParserBase\<close>

text \<open>
  \<^verbatim>\<open>isAny(x, args...)\<close> compares \<open>x\<close> with each argument. An argument that converts to a
  \<^verbatim>\<open>std::string_view\<close> (a string literal) is tested with
  \<^verbatim>\<open>std::string_view{arg}.contains(x)\<close>, every other argument with \<^verbatim>\<open>x == arg\<close>. So there
  are three readings:
  \<^item> \<open>isAny\<close>: \<open>x\<close> and the arguments are characters, compared with \<^verbatim>\<open>==\<close>; the same
    function, applied to the characters of the literal, is a character looked up in one
    string literal (\<^verbatim>\<open>isAny(c, ":[],;")\<close>);
  \<^item> \<open>isAny_sub\<close>: \<open>x\<close> is a \<^verbatim>\<open>string_view\<close> and the arguments are string literals, and
    \<^verbatim>\<open>contains\<close> is the substring test: \<open>x\<close> matches when it occurs in one of the literals,
    the empty \<open>x\<close> in every one.
\<close>

definition isAny :: "'a \<Rightarrow> 'a list \<Rightarrow> bool" where
  "isAny x args = (x \<in> set args)"

fun contains :: "'a list \<Rightarrow> 'a list \<Rightarrow> bool" where
  "contains [] x = (x = [])"
| "contains (c # cs) x = (take (length x) (c # cs) = x \<or> contains cs x)"

definition isAny_sub :: "string \<Rightarrow> string list \<Rightarrow> bool" where
  "isAny_sub x args = list_ex (\<lambda>arg. contains arg x) args"

definition isWhitespace :: "char \<Rightarrow> bool" where
  "isWhitespace c = isAny c [CHR '' '', CHR 0x09, CHR 0x0A, CHR 0x0D]"

definition isNewline :: "char \<Rightarrow> bool" where
  "isNewline c = isAny c [CHR 0x0A, CHR 0x0D]"

definition isLowercase :: "char \<Rightarrow> bool" where
  "isLowercase c = ((97::nat) \<le> of_char c \<and> (of_char c :: nat) \<le> 122)"

definition isUppercase :: "char \<Rightarrow> bool" where
  "isUppercase c = ((65::nat) \<le> of_char c \<and> (of_char c :: nat) \<le> 90)"

definition isBase10 :: "char \<Rightarrow> bool" where
  "isBase10 c = ((48::nat) \<le> of_char c \<and> (of_char c :: nat) \<le> 57)"

definition isBase36 :: "char \<Rightarrow> bool" where
  "isBase36 c = (isBase10 c \<or> isLowercase c \<or> isUppercase c)"

text \<open>
  \<^verbatim>\<open>str.substr(pos, n)\<close>: the characters from \<open>pos\<close>, at most \<open>n\<close> of them; a \<open>pos\<close>
  beyond the size throws \<^verbatim>\<open>std::out_of_range\<close>.
\<close>

definition substr :: "'a list \<Rightarrow> nat \<Rightarrow> nat \<Rightarrow> error + 'a list" where
  "substr str pos n = (if length str < pos then Inl OutOfRange else Inr (take n (drop pos str)))"

text \<open>The value of one digit, as the conditional expression in the loop of \<^verbatim>\<open>base36\<close>.\<close>

definition digit36 :: "char \<Rightarrow> int" where
  "digit36 c =
     (if isBase10 c then int (of_char c) - 48
      else if isLowercase c then int (of_char c) - 97 + 10
      else int (of_char c) - 65 + 10)"

text \<open>
  Modelled from the spec: \<^verbatim>\<open>pow\<close> of \<^verbatim>\<open>math.hh\<close>, which is not among the sources;
  the spec writes \<open>36^width\<close> for \<^verbatim>\<open>pow(36u, N)\<close> and \<open>10^(-fracDigitCount)\<close> for
  \<^verbatim>\<open>pow((T)0.1, fracSize)\<close>.
\<close>

definition pow :: "'a::power \<Rightarrow> nat \<Rightarrow> 'a" where
  "pow b n = b ^ n"

text \<open>
  The loop \<^verbatim>\<open>result = 36*result + digit\<close> of \<^verbatim>\<open>base36\<close>, on a result of type \<open>T\<close>
  with \<open>LENGTH('a)\<close> bits: the arithmetic wraps around. The \<^verbatim>\<open>assert(isBase36(c))\<close> is a
  branch.
\<close>

fun base36_digits :: "string \<Rightarrow> 'a::len word \<Rightarrow> error + 'a word" where
  "base36_digits [] result = Inr result"
| "base36_digits (c # cs) result =
     (if \<not> isBase36 c then Inl AssertionFailed
      else base36_digits cs (36 * result + of_int (digit36 c)))"

text \<open>
  \<^verbatim>\<open>result >= exp/2\<close> compares a signed \<open>T\<close> with an \<^verbatim>\<open>unsigned\<close> (32 bits): a \<open>T\<close> of
  at most 32 bits is converted to \<^verbatim>\<open>unsigned\<close> (sign extension, then modulo \<open>2^32\<close>), and
  for a wider \<open>T\<close> the \<^verbatim>\<open>unsigned\<close> is converted to \<open>T\<close>.
\<close>

definition ge_unsigned :: "'a::len word \<Rightarrow> 32 word \<Rightarrow> bool" where
  "ge_unsigned result u =
     (if LENGTH('a) \<le> 32 then uint u \<le> sint result mod 2 ^ 32 else uint u \<le> sint result)"

text \<open>
  \<^verbatim>\<open>base36<N,T>(str)\<close>. The first argument is \<^verbatim>\<open>std::is_signed_v<T>\<close>; \<open>exp\<close> is a
  \<^verbatim>\<open>constexpr unsigned\<close>, a word of 32 bits whatever \<open>T\<close> is, and \<^verbatim>\<open>result -= exp\<close>
  keeps the low \<open>LENGTH('a)\<close> bits of the difference.
\<close>

definition base36 :: "bool \<Rightarrow> nat \<Rightarrow> string \<Rightarrow> error + 'a::len word" where
  "base36 is_signed N str =
     (if N < length str then Inl AssertionFailed
      else case base36_digits str 0 of
        Inl e \<Rightarrow> Inl e
      | Inr result \<Rightarrow>
          (let exp = (pow 36 N :: 32 word)
           in if is_signed \<and> ge_unsigned result (exp div 2)
              then Inr (result - ucast exp) else Inr result))"

text \<open>
  \<^verbatim>\<open>base10<int>(str)\<close>: \<^verbatim>\<open>str.front()\<close> of an empty view is out of bounds, and
  \<^verbatim>\<open>10*result + (c-'0')\<close> overflows \<^verbatim>\<open>int\<close> beyond \<open>2^31 - 1\<close>.
\<close>

fun base10_digits :: "string \<Rightarrow> int \<Rightarrow> error + int" where
  "base10_digits [] result = Inr result"
| "base10_digits (c # cs) result =
     (if \<not> isBase10 c then Inl AssertionFailed
      else if 2147483647 < 10 * result + (int (of_char c) - 48) then Inl SignedOverflow
      else base10_digits cs (10 * result + (int (of_char c) - 48)))"

definition base10_int :: "string \<Rightarrow> error + int" where
  "base10_int str =
     (case str of
        [] \<Rightarrow> Inl OutOfBounds
      | c # cs \<Rightarrow>
          (if c = CHR ''+'' then base10_digits cs 0
           else if c = CHR ''-'' then
             (case base10_digits cs 0 of Inl e \<Rightarrow> Inl e | Inr result \<Rightarrow> Inr (- result))
           else base10_digits str 0))"

text \<open>
  \<^verbatim>\<open>base10<float>(str)\<close>. A \<^verbatim>\<open>float\<close> is modelled by the rational number the
  expression denotes; the rounding of each operation to single precision is not modelled.
\<close>

definition find_char :: "char \<Rightarrow> string \<Rightarrow> nat option" where
  "find_char c str = (if c \<in> set str then Some (length (takeWhile (\<lambda>d. d \<noteq> c) str)) else None)"

definition base10_float :: "string \<Rightarrow> error + rat" where
  "base10_float str =
     (case find_char CHR ''.'' str of
        None \<Rightarrow> (case base10_int str of Inl e \<Rightarrow> Inl e | Inr v \<Rightarrow> Inr (of_int v))
      | Some dot0 \<Rightarrow>
          (let signed = (hd str = CHR ''+'' \<or> hd str = CHR ''-'');
               sign = (if hd str = CHR ''-'' then - 1 else 1 :: rat);
               str1 = (if signed then tl str else str);
               dot = (if signed then dot0 - 1 else dot0);
               intSize = dot;
               fracSize = length str1 - (dot + 1)
           in case (if intSize \<noteq> 0 then base10_int (take dot str1) else Inr 0) of
                Inl e \<Rightarrow> Inl e
              | Inr ip \<Rightarrow>
                  (case (if fracSize \<noteq> 0 then base10_int (take fracSize (drop (dot + 1) str1))
                         else Inr 0) of
                     Inl e \<Rightarrow> Inl e
                   | Inr fp \<Rightarrow>
                       Inr (sign * (of_int ip +
                         (if fracSize \<noteq> 0 then of_int fp * pow (1 / 10) fracSize else 0))))))"

section \<open>SketchFormat: the tokenizer\<close>

type_synonym Token = string
type_synonym Tokens = "Token list"

datatype State = LineStart | Comment | Space | End | Token | String | StringEnd | Op

text \<open>
  The lambda that computes \<^verbatim>\<open>nextState\<close> from the previous state and the character
  read. It increments and decrements \<^verbatim>\<open>parenCount\<close>, so the counter is passed and
  returned.
\<close>

definition nextStateOf :: "State \<Rightarrow> char \<Rightarrow> int \<Rightarrow> State \<times> int" where
  "nextStateOf state c parenCount =
     (if state = LineStart \<and> c = CHR ''%'' then (Comment, parenCount)
      else if state = Comment then (if isNewline c then LineStart else Comment, parenCount)
      else if state = String then
        (if c = CHR ''('' then (String, parenCount + 1)
         else if c = CHR '')'' then
           (if parenCount - 1 \<le> 0 then StringEnd else String, parenCount - 1)
         else (String, parenCount))
      else if isNewline c then (LineStart, parenCount)
      else if isWhitespace c then (Space, parenCount)
      else if isAny c '':[],;'' then (Op, parenCount)
      else if c = CHR ''('' then (String, parenCount)
      else (Token, parenCount))"

text \<open>
  \<^verbatim>\<open>resultAdd(i0, i1)\<close> pushes \<^verbatim>\<open>str.substr(i0, i1-i0)\<close>. The subtraction is one of
  \<^verbatim>\<open>std::size_t\<close> and wraps around.
\<close>

definition size_sub :: "nat \<Rightarrow> nat \<Rightarrow> nat" where
  "size_sub a b = (if b \<le> a then a - b else 2 ^ 64 - (b - a))"

definition resultAdd :: "string \<Rightarrow> Tokens \<Rightarrow> nat \<Rightarrow> nat \<Rightarrow> error + Tokens" where
  "resultAdd str result i0 i1 =
     (case substr str i0 (size_sub i1 i0) of
        Inl e \<Rightarrow> Inl e
      | Inr t \<Rightarrow> Inr (result @ [t]))"

text \<open>\<^verbatim>\<open>str[i]\<close> on a \<^verbatim>\<open>string_view\<close>: defined for \<open>i < size\<close> only.\<close>

definition read_at :: "string \<Rightarrow> nat \<Rightarrow> error + char" where
  "read_at str i = (if i < length str then Inr (str ! i) else Inl OutOfBounds)"

text \<open>
  The block \<^verbatim>\<open>if (prevState == Op) { resultAdd(i-1, i); if (str[i] == ';') return result; }\<close>.
  The flag of the result says whether the function returns there.
\<close>

definition op_block :: "string \<Rightarrow> nat \<Rightarrow> Tokens \<Rightarrow> error + (bool \<times> Tokens)" where
  "op_block str i result =
     (case resultAdd str result (size_sub i 1) i of
        Inl e \<Rightarrow> Inl e
      | Inr result1 \<Rightarrow>
          (case read_at str i of
             Inl e \<Rightarrow> Inl e
           | Inr c \<Rightarrow> Inr (c = CHR '';'', result1)))"

text \<open>
  The block \<^verbatim>\<open>if (prevState != nextState) { ... }\<close>, on \<open>(tokenStart, parenCount, result)\<close>,
  its five statements in the order of the source.
\<close>

definition change_block ::
  "string \<Rightarrow> nat \<Rightarrow> State \<Rightarrow> State \<Rightarrow> nat \<times> int \<times> Tokens \<Rightarrow> error + (nat \<times> int \<times> Tokens)" where
  "change_block str i prevState nextState v =
     (case v of (tokenStart, parenCount, result) \<Rightarrow>
        (let tokenStart1 = (if nextState = Token then i else tokenStart)
         in case (if prevState = Token then resultAdd str result tokenStart1 i else Inr result) of
              Inl e \<Rightarrow> Inl e
            | Inr result2 \<Rightarrow>
                (let tokenStart3 = (if nextState = String then i else tokenStart1);
                     parenCount3 = (if nextState = String then 1 else parenCount)
                 in case (if nextState = StringEnd then resultAdd str result2 tokenStart3 (i + 1)
                          else Inr result2) of
                      Inl e \<Rightarrow> Inl e
                    | Inr result4 \<Rightarrow>
                        (case (if prevState = String \<and> nextState = End
                               then resultAdd str result4 tokenStart3 i else Inr result4) of
                           Inl e \<Rightarrow> Inl e
                         | Inr result5 \<Rightarrow> Inr (tokenStart3, parenCount3, result5)))))"

text \<open>
  The loop \<^verbatim>\<open>for (i=0; i<=str.size(); i++, prevState = nextState)\<close>, from index \<open>i\<close>
  with the local variables as arguments.
\<close>

function tokenize_loop ::
  "string \<Rightarrow> nat \<Rightarrow> State \<Rightarrow> nat \<Rightarrow> int \<Rightarrow> Tokens \<Rightarrow> error + Tokens" where
  "tokenize_loop str i prevState tokenStart parenCount result =
     (if length str < i then Inr result
      else
        (let ns = (if i = length str then (End, parenCount)
                   else nextStateOf prevState (str ! i) parenCount)
         in case (if prevState = Op then op_block str i result else Inr (False, result)) of
              Inl e \<Rightarrow> Inl e
            | Inr (stop, result1) \<Rightarrow>
                if stop then Inr result1
                else
                  (case (if prevState \<noteq> fst ns
                         then change_block str i prevState (fst ns) (tokenStart, snd ns, result1)
                         else Inr (tokenStart, snd ns, result1)) of
                     Inl e \<Rightarrow> Inl e
                   | Inr (tokenStart1, parenCount1, result2) \<Rightarrow>
                       tokenize_loop str (i + 1) (fst ns) tokenStart1 parenCount1 result2)))"
  by pat_completeness auto
termination
  by (relation "measure (\<lambda>(str, i, _). length str + 1 - i)") auto

declare tokenize_loop.simps [simp del]

definition tokenize :: "string \<Rightarrow> error + Tokens" where
  "tokenize str = tokenize_loop str 0 LineStart 0 0 []"

section \<open>SketchFormat: the element grammar\<close>

datatype ValueType = tBase36 | tNumber | tString

datatype V = tNone | tSingle ValueType | tUnbounded ValueType nat | tBounded ValueType nat

definition ElementsDefs :: "(string \<times> V) list" where
  "ElementsDefs =
     [(''Data'', tUnbounded tBase36 1),
      (''Pencil'', tUnbounded tBase36 1),
      (''Brush'', tUnbounded tBase36 2),
      (''Affine'', tBounded tNumber 9),
      (''Marker'', tSingle tString)]"

text \<open>\<^verbatim>\<open>ElementData\<close>: the type name and the span of member tokens.\<close>

record ElementData =
  type_name :: Token
  members :: "Token list"

text \<open>
  The loop \<^verbatim>\<open>while (i < tkn.size() && tkn[i] != "]") i++, count++;\<close> of the bounded and
  unbounded cases; it returns \<open>(i, count)\<close>.
\<close>

function scan_members :: "Tokens \<Rightarrow> nat \<Rightarrow> nat \<Rightarrow> nat \<times> nat" where
  "scan_members tkn i count =
     (if i < length tkn \<and> tkn ! i \<noteq> '']'' then scan_members tkn (i + 1) (count + 1)
      else (i, count))"
  by pat_completeness auto
termination
  by (relation "measure (\<lambda>(tkn, i, _). length tkn - i)") auto

declare scan_members.simps [simp del]

text \<open>
  \<^verbatim>\<open>parseElement(tkn, i)\<close>: the element and the new value of the index \<open>i\<close>, which the
  source passes by reference. \<open>None\<close> is the empty optional. The member span
  \<^verbatim>\<open>{&tkn[i-1-count], count}\<close> is the list of the tokens it covers.
\<close>

definition parseElement :: "Tokens \<Rightarrow> nat \<Rightarrow> (ElementData \<times> nat) option" where
  "parseElement tkn i =
     (if length tkn < i + 1 then None
      else
        (let typeName = tkn ! i; i1 = i + 1
         in case find (\<lambda>t. fst t = typeName) ElementsDefs of
              None \<Rightarrow> None
            | Some match \<Rightarrow>
                (case snd match of
                   tNone \<Rightarrow> Some (\<lparr>type_name = typeName, members = []\<rparr>, i1)
                 | tSingle ty \<Rightarrow>
                     (if length tkn < i1 + 2 then None
                      else if tkn ! i1 \<noteq> '':'' then None
                      else Some (\<lparr>type_name = typeName, members = [tkn ! (i1 + 1)]\<rparr>, i1 + 2))
                 | tBounded ty n \<Rightarrow>
                     (if length tkn < i1 + 2 then None
                      else if tkn ! i1 \<noteq> '':'' then None
                      else if tkn ! (i1 + 1) \<noteq> ''['' then None
                      else
                        (case scan_members tkn (i1 + 2) 0 of (i3, count) \<Rightarrow>
                           if i3 = length tkn then None
                           else if count \<noteq> n then None
                           else Some (\<lparr>type_name = typeName,
                                       members = take count (drop (i3 + 1 - 1 - count) tkn)\<rparr>,
                                      i3 + 1)))
                 | tUnbounded ty mult \<Rightarrow>
                     (if length tkn < i1 + 2 then None
                      else if tkn ! i1 \<noteq> '':'' then None
                      else if tkn ! (i1 + 1) \<noteq> ''['' then None
                      else
                        (case scan_members tkn (i1 + 2) 0 of (i3, count) \<Rightarrow>
                           if i3 = length tkn then None
                           else Some (\<lparr>type_name = typeName,
                                       members = take count (drop (i3 + 1 - 1 - count) tkn)\<rparr>,
                                      i3 + 1))))))"

lemma contains_iff: "contains s x \<longleftrightarrow> (\<exists>ps ss. s = ps @ x @ ss)"
proof (induction s)
  case Nil
  show ?case by auto
next
  case (Cons c cs)
  show ?case
  proof
    assume "contains (c # cs) x"
    then consider "take (length x) (c # cs) = x" | "contains cs x"
      by auto
    then show "\<exists>ps ss. c # cs = ps @ x @ ss"
    proof cases
      case 1
      then have "c # cs = [] @ x @ drop (length x) (c # cs)"
        by (metis append_Nil append_take_drop_id)
      then show ?thesis by blast
    next
      case 2
      with Cons.IH obtain ps ss where "cs = ps @ x @ ss" by blast
      then have "c # cs = (c # ps) @ x @ ss" by simp
      then show ?thesis by blast
    qed
  next
    assume "\<exists>ps ss. c # cs = ps @ x @ ss"
    then obtain ps ss where eq: "c # cs = ps @ x @ ss" by blast
    show "contains (c # cs) x"
    proof (cases ps)
      case Nil
      with eq have "take (length x) (c # cs) = x" by simp
      then show ?thesis by simp
    next
      case (Cons p ps')
      with eq have "cs = ps' @ x @ ss" by simp
      with Cons.IH have "contains cs x" by blast
      then show ?thesis by simp
    qed
  qed
qed

lemma isAny_sub_separators:
  "isAny_sub x ['','', '';''] \<longleftrightarrow> x = [] \<or> x = '','' \<or> x = '';''"
proof -
  have one: "contains [c] x \<longleftrightarrow> x = [] \<or> x = [c]" for c :: char
    by (cases x) (auto simp add: take_Cons')
  show ?thesis
    by (auto simp add: isAny_sub_def one simp del: contains.simps)
qed

lemma scan_members_bounds:
  "scan_members tkn i count = (i', count') \<Longrightarrow> i \<le> i' \<and> count' = count + (i' - i)"
proof (induction tkn i count rule: scan_members.induct)
  case (1 tkn i count)
  show ?case
  proof (cases "i < length tkn \<and> tkn ! i \<noteq> '']''")
    case True
    with "1.prems" have "scan_members tkn (i + 1) (count + 1) = (i', count')"
      by (simp add: scan_members.simps [of tkn i count])
    with "1.IH" True have "i + 1 \<le> i' \<and> count' = count + 1 + (i' - (i + 1))"
      by blast
    then show ?thesis by auto
  next
    case False
    with "1.prems" show ?thesis
      by (simp add: scan_members.simps [of tkn i count])
  qed
qed

lemma parseElement_advances:
  assumes "parseElement tkn i = Some (e, i')"
  shows "i < i'"
proof -
  have scan: "\<And>j a b. scan_members tkn j 0 = (a, b) \<Longrightarrow> j \<le> a"
    using scan_members_bounds by blast
  from assms show ?thesis
    unfolding parseElement_def Let_def
    by (auto split: if_splits option.splits V.splits prod.splits dest!: scan)
qed

section \<open>SketchFormat: the scene assembler\<close>

text \<open>
  The scene types come from \<^verbatim>\<open>types.hh\<close>, which is not among the sources; they are
  modelled from the data model of the specification and from the fields that
  \<^verbatim>\<open>parse\<close> writes. A \<^verbatim>\<open>float\<close> is the rational number its defining expression denotes.
  The fields \<^verbatim>\<open>x\<close> and \<^verbatim>\<open>y\<close> of a point are \<open>point_x\<close> and \<open>point_y\<close>, and the fields
  of an \<^verbatim>\<open>Element\<close> carry the prefix \<open>elem_\<close>.
\<close>

record Point =
  point_x :: "16 word"
  point_y :: "16 word"
  pressure :: rat

record Stroke =
  diameter :: "32 word"
  points :: "Point list"

record Marker =
  message :: string

datatype Atom = StrokeAtom Stroke | MarkerAtom Marker

datatype Modifier = Affine "rat list"

record 'k Element =
  elem_type :: 'k
  elem_atoms :: "Atom list"
  elem_modifiers :: "Modifier list"

record 'k Sketch =
  elements :: "'k Element list"
  atoms :: "Atom list"

text \<open>
  The loop \<^verbatim>\<open>for (char c : currElem->members[j++])\<close> over the characters of one member,
  with the local \<^verbatim>\<open>digits\<close> and the points pushed so far; at the end of the member stands
  \<^verbatim>\<open>assert(digits.empty())\<close>.
\<close>

fun parse_points :: "bool \<Rightarrow> string \<Rightarrow> string \<Rightarrow> Point list \<Rightarrow> error + Point list" where
  "parse_points isBrush [] digits pts = (if digits = [] then Inr pts else Inl AssertionFailed)"
| "parse_points isBrush (c # cs) digits pts =
     (if c = CHR 0x27 then parse_points isBrush cs digits pts
      else
        (let digits1 = digits @ [c]
         in if length digits1 < (if isBrush then 8 else 6) then parse_points isBrush cs digits1 pts
            else
              (case base36 True 3 (take 3 digits1) of
                 Inl e \<Rightarrow> Inl e
               | Inr px \<Rightarrow>
                   (case base36 True 3 (take 3 (drop 3 digits1)) of
                      Inl e \<Rightarrow> Inl e
                    | Inr py \<Rightarrow>
                        (case (if isBrush
                               then (case (base36 False 2 (take 2 (drop 6 digits1))
                                             :: error + 32 word) of
                                       Inl e \<Rightarrow> Inl e
                                     | Inr p \<Rightarrow> Inr (of_nat (unat p) / of_nat (36 * 36 - 1)))
                               else Inr 1) of
                           Inl e \<Rightarrow> Inl e
                         | Inr pr \<Rightarrow>
                             parse_points isBrush cs []
                               (pts @ [\<lparr>point_x = px, point_y = py, pressure = pr\<rparr>]))))))"

text \<open>
  The loop \<^verbatim>\<open>for (std::size_t j=0; j<currElem->members.size(); )\<close> on the members that
  remain. A brush reads two members for each stroke; the second read is out of bounds when
  only one is left.
\<close>

fun parse_strokes :: "bool \<Rightarrow> Token list \<Rightarrow> error + Atom list" where
  "parse_strokes isBrush [] = Inr []"
| "parse_strokes False (m # ms) =
     (case parse_points False m [] [] of
        Inl e \<Rightarrow> Inl e
      | Inr pts \<Rightarrow>
          (case parse_strokes False ms of
             Inl e \<Rightarrow> Inl e
           | Inr rest \<Rightarrow> Inr (StrokeAtom \<lparr>diameter = 3, points = pts\<rparr> # rest)))"
| "parse_strokes True [d] =
     (case (base36 False 2 d :: error + 32 word) of
        Inl e \<Rightarrow> Inl e
      | Inr dm \<Rightarrow> Inl OutOfBounds)"
| "parse_strokes True (d # m # ms) =
     (case base36 False 2 d of
        Inl e \<Rightarrow> Inl e
      | Inr dm \<Rightarrow>
          (case parse_points True m [] [] of
             Inl e \<Rightarrow> Inl e
           | Inr pts \<Rightarrow>
               (case parse_strokes True ms of
                  Inl e \<Rightarrow> Inl e
                | Inr rest \<Rightarrow> Inr (StrokeAtom \<lparr>diameter = dm, points = pts\<rparr> # rest))))"

text \<open>
  The block \<^verbatim>\<open>PARSE MAIN ELEMENT\<close>: the atoms of the statement, from its first element.
  \<^verbatim>\<open>isAny(currElem->type, "Data", "Pencil", "Brush")\<close> is the substring test of
  \<open>isAny_sub\<close>, the comparisons with \<^verbatim>\<open>"Brush"\<close> and \<^verbatim>\<open>"Marker"\<close> are equalities.
  \<^verbatim>\<open>currElem->members[0]\<close> of a marker is out of bounds on an empty span.
\<close>

definition parse_main :: "ElementData \<Rightarrow> error + Atom list" where
  "parse_main currElem =
     (if isAny_sub (type_name currElem) [''Data'', ''Pencil'', ''Brush'']
      then parse_strokes (type_name currElem = ''Brush'') (members currElem)
      else if type_name currElem = ''Marker'' then
        (case members currElem of
           [] \<Rightarrow> Inl OutOfBounds
         | msg # _ \<Rightarrow>
             (if msg \<noteq> [] \<and> hd msg = CHR ''('' \<and> last msg = CHR '')''
              then Inr [MarkerAtom \<lparr>message = butlast (tl msg)\<rparr>]
              else Inl AssertionFailed))
      else Inr [])"

text \<open>The loop \<^verbatim>\<open>for (j=0; j<9; j++) m[j] = base10<float>(currElem->members[j])\<close>.\<close>

fun affine_entries :: "nat \<Rightarrow> Token list \<Rightarrow> error + rat list" where
  "affine_entries 0 ms = Inr []"
| "affine_entries (Suc n) [] = Inl OutOfBounds"
| "affine_entries (Suc n) (m # ms) =
     (case base10_float m of
        Inl e \<Rightarrow> Inl e
      | Inr v \<Rightarrow>
          (case affine_entries n ms of
             Inl e \<Rightarrow> Inl e
           | Inr vs \<Rightarrow> Inr (v # vs)))"

text \<open>
  The block \<^verbatim>\<open>PARSE ALL MODIFIERS\<close>: the loop over the elements after the first, with
  the modifiers pushed so far.
\<close>

fun parse_modifiers :: "ElementData list \<Rightarrow> Modifier list \<Rightarrow> error + Modifier list" where
  "parse_modifiers [] mods = Inr mods"
| "parse_modifiers (currElem # rest) mods =
     (if type_name currElem = ''Affine'' then
        (case affine_entries 9 (members currElem) of
           Inl e \<Rightarrow> Inl e
         | Inr m \<Rightarrow> parse_modifiers rest (mods @ [Affine m]))
      else parse_modifiers rest mods)"

text \<open>
  The body of the statement loop after its elements are read: main element, modifiers, the
  push of the grouping element and the splice of the atoms in front of \<^verbatim>\<open>result.atoms\<close>.
  \<open>elementTypeFromString\<close> is the lookup table of \<^verbatim>\<open>types.hh\<close>, a parameter here.
\<close>

definition parse_statement ::
  "(string \<Rightarrow> 'k option) \<Rightarrow> ElementData list \<Rightarrow> 'k Sketch \<Rightarrow> error + 'k Sketch" where
  "parse_statement elementTypeFromString elemsList result =
     (case parse_main (hd elemsList) of
        Inl e \<Rightarrow> Inl e
      | Inr timelineAtoms \<Rightarrow>
          (case parse_modifiers (tl elemsList) [] of
             Inl e \<Rightarrow> Inl e
           | Inr mods \<Rightarrow>
               Inr \<lparr>elements =
                      (case elementTypeFromString (type_name (hd elemsList)) of
                         None \<Rightarrow> elements result
                       | Some ty \<Rightarrow>
                           elements result @
                             [\<lparr>elem_type = ty, elem_atoms = timelineAtoms,
                               elem_modifiers = mods\<rparr>]),
                    atoms = timelineAtoms @ atoms result\<rparr>))"

text \<open>
  The loop \<^verbatim>\<open>while (i<tkn.size() && !isAny(tkn[i], ",", ";"))\<close> that reads the elements
  of one statement; \<open>None\<close> when \<^verbatim>\<open>parseElement\<close> fails. The test is the substring test
  of \<open>isAny_sub\<close>: the tokens \<open>,\<close> and \<open>;\<close> and the empty token end the statement.
\<close>

function parse_elems ::
  "Tokens \<Rightarrow> nat \<Rightarrow> ElementData list \<Rightarrow> (ElementData list \<times> nat) option" where
  "parse_elems tkn i elemsList =
     (if i < length tkn \<and> \<not> isAny_sub (tkn ! i) ['','', '';''] then
        (case parseElement tkn i of
           None \<Rightarrow> None
         | Some (e, i') \<Rightarrow> parse_elems tkn i' (elemsList @ [e]))
      else Some (elemsList, i))"
  by pat_completeness auto
termination
  by (relation "measure (\<lambda>(tkn, i, _). length tkn - i)")
     (auto dest: parseElement_advances)

declare parse_elems.simps [simp del]

lemma parse_elems_index: "parse_elems tkn i elemsList = Some (es, i') \<Longrightarrow> i \<le> i'"
proof (induction tkn i elemsList rule: parse_elems.induct)
  case (1 tkn i elemsList)
  show ?case
  proof (cases "i < length tkn \<and> \<not> isAny_sub (tkn ! i) ['','', '';'']")
    case True
    with "1.prems" obtain e j where pe: "parseElement tkn i = Some (e, j)"
      and rec: "parse_elems tkn j (elemsList @ [e]) = Some (es, i')"
      by (simp add: parse_elems.simps [of tkn i elemsList] split: option.splits prod.splits)
    from "1.IH" [OF True pe refl rec] parseElement_advances [OF pe] show ?thesis
      by simp
  next
    case False
    with "1.prems" show ?thesis
      by (simp add: parse_elems.simps [of tkn i elemsList])
  qed
qed

text \<open>
  The loop \<^verbatim>\<open>for (std::size_t i=0; i<tkn.size(); i++)\<close> over the statements, from index
  \<open>i\<close> with the sketch built so far. \<open>Inr None\<close> is the empty optional.
\<close>

function parse_loop ::
  "(string \<Rightarrow> 'k option) \<Rightarrow> Tokens \<Rightarrow> nat \<Rightarrow> 'k Sketch \<Rightarrow> error + 'k Sketch option" where
  "parse_loop elementTypeFromString tkn i result =
     (if i < length tkn then
        (case parse_elems tkn i [] of
           None \<Rightarrow> Inr None
         | Some (elemsList, i') \<Rightarrow>
             (if elemsList = [] then Inr None
              else
                (case parse_statement elementTypeFromString elemsList result of
                   Inl e \<Rightarrow> Inl e
                 | Inr result' \<Rightarrow>
                     (if i' < length tkn \<and> tkn ! i' = '';'' then Inr (Some result')
                      else parse_loop elementTypeFromString tkn (i' + 1) result'))))
      else Inr (Some result))"
  by pat_completeness auto
termination
  by (relation "measure (\<lambda>(_, tkn, i, _). length tkn - i)")
     (auto dest!: parse_elems_index)

declare parse_loop.simps [simp del]

definition parse :: "(string \<Rightarrow> 'k option) \<Rightarrow> Tokens \<Rightarrow> error + 'k Sketch option" where
  "parse elementTypeFromString tkn =
     (if tkn = [] then Inr None
      else if tkn ! 0 = '';'' then Inr (Some \<lparr>elements = [], atoms = []\<rparr>)
      else parse_loop elementTypeFromString tkn 0 \<lparr>elements = [], atoms = []\<rparr>)"

section \<open>RawFormat\<close>

datatype VState = S0 | X1 | X2 | Y1 | Y2

text \<open>
  \<^verbatim>\<open>RawFormat::verify\<close>: the loop \<^verbatim>\<open>for (char c; is.get(c); )\<close> on the characters that
  remain in the stream, from the state reached so far, and the test at the end of the stream.
\<close>

fun verify_loop :: "VState \<Rightarrow> string \<Rightarrow> bool" where
  "verify_loop state [] = (state = S0 \<or> state = Y2)"
| "verify_loop state (c # cs) =
     (if isBase36 c then
        verify_loop
          (if state = S0 then X1
           else if state = X1 then X2
           else if state = X2 then Y1
           else if state = Y1 then Y2
           else X1) cs
      else if isWhitespace c \<and> (state = S0 \<or> state = Y2) then verify_loop S0 cs
      else False)"

definition RawFormat_verify :: "string \<Rightarrow> bool" where
  "RawFormat_verify is = verify_loop S0 is"

text \<open>
  Modelled from the spec: the raw scene types of \<^verbatim>\<open>types.hh\<close>, which is not among the
  sources, with the fields that \<^verbatim>\<open>RawFormat::parse\<close> writes (\<^verbatim>\<open>x\<close> and \<^verbatim>\<open>y\<close> of a point,
  here \<open>raw_x\<close> and \<open>raw_y\<close>).
\<close>

record RawPoint =
  raw_x :: "16 word"
  raw_y :: "16 word"

record RawStroke =
  raw_points :: "RawPoint list"

record RawSketch =
  strokes :: "RawStroke list"

text \<open>
  The white space that \<^verbatim>\<open>std::ws\<close> skips and that ends the extraction \<^verbatim>\<open>is >> line\<close>:
  \<^verbatim>\<open>std::isspace\<close> in the classic locale.
\<close>

definition isspace :: "char \<Rightarrow> bool" where
  "isspace c = isAny c [CHR '' '', CHR 0x09, CHR 0x0A, CHR 0x0B, CHR 0x0C, CHR 0x0D]"

text \<open>The loop \<^verbatim>\<open>for (std::size_t i=0; i<line.size(); i+=4)\<close> with the points pushed so far.\<close>

function stroke_loop :: "string \<Rightarrow> nat \<Rightarrow> RawPoint list \<Rightarrow> error + RawPoint list" where
  "stroke_loop line i pts =
     (if i < length line then
        (case substr line (i + 0) 2 of
           Inl e \<Rightarrow> Inl e
         | Inr sx \<Rightarrow>
             (case base36 True 3 sx of
                Inl e \<Rightarrow> Inl e
              | Inr px \<Rightarrow>
                  (case substr line (i + 2) 2 of
                     Inl e \<Rightarrow> Inl e
                   | Inr sy \<Rightarrow>
                       (case base36 True 3 sy of
                          Inl e \<Rightarrow> Inl e
                        | Inr py \<Rightarrow>
                            stroke_loop line (i + 4) (pts @ [\<lparr>raw_x = px, raw_y = py\<rparr>])))))
      else Inr pts)"
  by pat_completeness auto
termination
  by (relation "measure (\<lambda>(line, i, _). length line - i)") auto

declare stroke_loop.simps [simp del]

text \<open>
  \<^verbatim>\<open>RawFormat::parse\<close>: the loop \<^verbatim>\<open>for (std::string line; is >> std::ws >> line; )\<close> on the
  characters that remain in the stream. The extraction skips white space and reads the
  characters up to the next white space; it fails, and the loop ends, when none is left.
\<close>

function RawFormat_parse_loop :: "string \<Rightarrow> RawSketch \<Rightarrow> error + RawSketch" where
  "RawFormat_parse_loop is result =
     (let s = dropWhile isspace is
      in if s = [] then Inr result
         else
           (let line = takeWhile (\<lambda>c. \<not> isspace c) s;
                rest = dropWhile (\<lambda>c. \<not> isspace c) s
            in case stroke_loop line 0 [] of
                 Inl e \<Rightarrow> Inl e
               | Inr pts \<Rightarrow>
                   RawFormat_parse_loop rest
                     (result\<lparr>strokes := strokes result @ [\<lparr>raw_points = pts\<rparr>]\<rparr>)))"
  by pat_completeness auto
termination
proof (relation "measure (\<lambda>(is, _). length is)", goal_cases)
  case 1
  show ?case by simp
next
  case (2 "is" result s line rest pts)
  from 2 obtain c cs where s: "s = c # cs" and c: "\<not> isspace c"
    by (metis dropWhile_eq_Nil_conv hd_dropWhile list.exhaust_sel)
  have "rest = dropWhile (\<lambda>c. \<not> isspace c) (c # cs)"
    using 2 s by simp
  then have "rest = dropWhile (\<lambda>c. \<not> isspace c) cs"
    using c by simp
  then have "length rest \<le> length cs"
    by (simp add: length_dropWhile_le)
  moreover have "length s \<le> length is"
    using 2 by (simp add: length_dropWhile_le)
  ultimately show ?case using s by simp
qed

declare RawFormat_parse_loop.simps [simp del]

definition RawFormat_parse :: "string \<Rightarrow> error + RawSketch" where
  "RawFormat_parse is = RawFormat_parse_loop is \<lparr>strokes = []\<rparr>"

section \<open>Claims about \<^verbatim>\<open>SketchFormat::parse\<close> on degenerate input\<close>

text \<open>
  C4, as the specification states it: \<^verbatim>\<open>parse\<close> of an empty token sequence yields an
  empty Sketch. The code returns the empty optional there (\<^verbatim>\<open>return {}\<close> in a function of
  type \<^verbatim>\<open>std::optional<Sketch>\<close>), the failure signal, so the statement is false at the
  empty token sequence.
\<close>

theorem parse_empty_counterexample:
  "parse (\<lambda>s. None :: nat option) [] \<noteq> Inr (Some \<lparr>elements = [], atoms = []\<rparr>)"
  by (simp add: parse_def)

text \<open>
  C4, amended: \<^verbatim>\<open>parse\<close> of an empty token sequence returns the failure signal (the empty
  optional); \<^verbatim>\<open>parse\<close> of a token sequence whose first token is \<open>;\<close> yields an empty Sketch
  (no elements, no atoms) and no failure, whatever follows the \<open>;\<close>.
\<close>

theorem parse_empty_or_semicolon:
  "parse elementTypeFromString [] = Inr None \<and>
   parse elementTypeFromString ('';'' # tkn) = Inr (Some \<lparr>elements = [], atoms = []\<rparr>)"
  by (simp add: parse_def)

theorem parse_empty_or_semicolon_witness:
  "parse (\<lambda>s. None :: nat option) [] = Inr None \<and>
   parse (\<lambda>s. None :: nat option) ['';'', ''Data'', '':''] =
     Inr (Some \<lparr>elements = [], atoms = []\<rparr>)"
  using parse_empty_or_semicolon [of "\<lambda>s. None :: nat option" "[''Data'', '':'']"] by simp

section \<open>Claims about the tokenizer\<close>

subsection \<open>Runs of the loop that do not depend on the text\<close>

lemma tokenize_loop_end_in_Op:
  "0 < length str \<Longrightarrow> tokenize_loop str (length str) Op tokenStart parenCount result = Inl OutOfBounds"
proof -
  assume "0 < length str"
  then have "Suc 0 \<le> length str" and "\<not> length str < length str - Suc 0"
    by (simp_all add: Suc_le_eq)
  then show ?thesis
    by (simp add: tokenize_loop.simps [of str "length str"] op_block_def resultAdd_def substr_def
          size_sub_def read_at_def)
qed

lemma tokenize_loop_past_end:
  "tokenize_loop str (Suc (length str)) st ts pc res = Inr res"
  by (simp add: tokenize_loop.simps [of str "Suc (length str)"])

lemma tokenize_loop_comment:
  "\<forall>c\<in>set body. \<not> isNewline c \<Longrightarrow> isNewline nl \<Longrightarrow>
   tokenize_loop (pre @ body @ [nl]) (length pre) Comment ts pc res = Inr res"
proof (induction body arbitrary: pre)
  case Nil
  have "tokenize_loop (pre @ [nl]) (length pre) Comment ts pc res =
        tokenize_loop (pre @ [nl]) (Suc (length pre)) LineStart ts pc res"
    using Nil by (simp add: tokenize_loop.simps [of _ "length pre"] nextStateOf_def change_block_def)
  also have "\<dots> = tokenize_loop (pre @ [nl]) (Suc (Suc (length pre))) End ts pc res"
    by (simp add: tokenize_loop.simps [of _ "Suc (length pre)"] change_block_def)
  also have "\<dots> = Inr res"
    using tokenize_loop_past_end [of "pre @ [nl]"] by simp
  finally show ?case by simp
next
  case (Cons c body)
  have "tokenize_loop (pre @ (c # body) @ [nl]) (length pre) Comment ts pc res =
        tokenize_loop (pre @ (c # body) @ [nl]) (Suc (length pre)) Comment ts pc res"
    using Cons.prems by (simp add: tokenize_loop.simps [of _ "length pre"] nextStateOf_def)
  also have "\<dots> = tokenize_loop ((pre @ [c]) @ body @ [nl]) (length (pre @ [c])) Comment ts pc res"
    by simp
  also have "\<dots> = Inr res"
    using Cons.prems by (intro Cons.IH) auto
  finally show ?case .
qed

lemma tokenize_comment_line:
  assumes "\<forall>c\<in>set body. \<not> isNewline c" and "isNewline nl"
  shows "tokenize (CHR ''%'' # body @ [nl]) = Inr []"
proof -
  have "tokenize (CHR ''%'' # body @ [nl]) =
        tokenize_loop ([CHR ''%''] @ body @ [nl]) (length [CHR ''%'']) Comment 0 0 []"
    by (simp add: tokenize_def tokenize_loop.simps [of _ 0] nextStateOf_def change_block_def)
  also have "\<dots> = Inr []"
    by (rule tokenize_loop_comment [OF assms])
  finally show ?thesis .
qed

subsection \<open>The loop, round by round\<close>

text \<open>
  One round of the loop of \<open>tokenize\<close>, as a function of its own: the next state, the
  \<^verbatim>\<open>prevState == Op\<close> block and the \<^verbatim>\<open>prevState != nextState\<close> block.
  \<open>Inr (Inl r)\<close> is the \<^verbatim>\<open>return result\<close> of the round; \<open>Inr (Inr cfg)\<close> holds the values of
  \<open>prevState\<close>, \<open>tokenStart\<close>, \<open>parenCount\<close> and \<open>result\<close> with which the next round
  starts. \<open>tokenize_loop_round\<close> shows that \<open>tokenize_loop\<close> iterates this round.
\<close>

definition tokenize_round ::
  "string \<Rightarrow> nat \<Rightarrow> State \<Rightarrow> nat \<Rightarrow> int \<Rightarrow> Tokens \<Rightarrow>
   error + (Tokens + State \<times> nat \<times> int \<times> Tokens)" where
  "tokenize_round str i prevState tokenStart parenCount result =
     (let ns = (if i = length str then (End, parenCount)
                else nextStateOf prevState (str ! i) parenCount)
      in case (if prevState = Op then op_block str i result else Inr (False, result)) of
           Inl e \<Rightarrow> Inl e
         | Inr (stop, result1) \<Rightarrow>
             if stop then Inr (Inl result1)
             else
               (case (if prevState \<noteq> fst ns
                      then change_block str i prevState (fst ns) (tokenStart, snd ns, result1)
                      else Inr (tokenStart, snd ns, result1)) of
                  Inl e \<Rightarrow> Inl e
                | Inr (tokenStart1, parenCount1, result2) \<Rightarrow>
                    Inr (Inr (fst ns, tokenStart1, parenCount1, result2))))"

lemma tokenize_loop_round:
  assumes "i \<le> length str"
  shows "tokenize_loop str i st ts pc res =
     (case tokenize_round str i st ts pc res of
        Inl e \<Rightarrow> Inl e
      | Inr (Inl r) \<Rightarrow> Inr r
      | Inr (Inr (st', ts', pc', res')) \<Rightarrow> tokenize_loop str (i + 1) st' ts' pc' res')"
proof -
  let ?ns = "if i = length str then (End, pc) else nextStateOf st (str ! i) pc"
  let ?ob = "if st = Op then op_block str i res else Inr (False, res)"
  let ?cb = "\<lambda>result1. if st \<noteq> fst ?ns
                   then change_block str i st (fst ?ns) (ts, snd ?ns, result1)
                   else Inr (ts, snd ?ns, result1)"
  have loop: "tokenize_loop str i st ts pc res =
     (case ?ob of
        Inl e \<Rightarrow> Inl e
      | Inr (stop, result1) \<Rightarrow>
          if stop then Inr result1
          else
            (case ?cb result1 of
               Inl e \<Rightarrow> Inl e
             | Inr (tokenStart1, parenCount1, result2) \<Rightarrow>
                 tokenize_loop str (i + 1) (fst ?ns) tokenStart1 parenCount1 result2))"
    using assms by (subst tokenize_loop.simps) (simp add: Let_def)
  have round: "tokenize_round str i st ts pc res =
     (case ?ob of
        Inl e \<Rightarrow> Inl e
      | Inr (stop, result1) \<Rightarrow>
          if stop then Inr (Inl result1)
          else
            (case ?cb result1 of
               Inl e \<Rightarrow> Inl e
             | Inr (tokenStart1, parenCount1, result2) \<Rightarrow>
                 Inr (Inr (fst ?ns, tokenStart1, parenCount1, result2))))"
    by (simp add: tokenize_round_def Let_def)
  show ?thesis
  proof (cases ?ob)
    case (Inl e)
    then show ?thesis by (simp only: loop round sum.case)
  next
    case (Inr sr)
    obtain stop result1 where sr: "sr = (stop, result1)" by (cases sr)
    show ?thesis
    proof (cases stop)
      case True
      with Inr sr show ?thesis by (simp only: loop round sum.case prod.case if_True)
    next
      case False
      show ?thesis
      proof (cases "?cb result1")
        case (Inl e)
        with Inr sr False show ?thesis
          by (simp only: loop round sum.case prod.case if_False)
      next
        case r: (Inr v)
        obtain t p r2 where v: "v = (t, p, r2)" by (cases v)
        with Inr sr False r show ?thesis
          by (simp only: loop round sum.case prod.case if_False)
      qed
    qed
  qed
qed

text \<open>
  The values of \<open>prevState\<close> and \<open>parenCount\<close> after a round that reads the character
  \<open>c\<close>: the next state of the automaton, and \<open>parenCount = 1\<close> when the round enters a
  string literal (\<^verbatim>\<open>if (nextState == String) tokenStart=i, parenCount=1\<close>).
  \<open>state_after pre\<close> is the pair with which the loop stands once it has read the characters
  of \<open>pre\<close>, starting from \<open>prevState = LineStart\<close> and \<open>parenCount = 0\<close>;
  \<open>tokenize_round_step\<close> shows that every round that goes on changes the pair by
  \<open>step_state\<close>.
\<close>

definition step_state :: "State \<times> int \<Rightarrow> char \<Rightarrow> State \<times> int" where
  "step_state sp c =
     (case nextStateOf (fst sp) c (snd sp) of
        (ns, pc) \<Rightarrow> (ns, if fst sp \<noteq> ns \<and> ns = String then 1 else pc))"

definition state_after :: "string \<Rightarrow> State \<times> int" where
  "state_after pre = foldl step_state (LineStart, 0) pre"

lemma change_block_pc:
  "change_block str i prev next (ts, pc, res) = Inr (ts', pc', res') \<Longrightarrow>
   pc' = (if next = String then 1 else pc)"
  by (auto simp add: change_block_def Let_def split: sum.splits if_splits)

lemma tokenize_round_step:
  assumes "i < length str"
    and "tokenize_round str i st ts pc res = Inr (Inr (st', ts', pc', res'))"
  shows "(st', pc') = step_state (st, pc) (str ! i)"
proof -
  obtain ns p where ns: "nextStateOf st (str ! i) pc = (ns, p)"
    by (cases "nextStateOf st (str ! i) pc")
  show ?thesis
  proof (cases "st = ns")
    case True
    with assms ns show ?thesis
      by (auto simp add: tokenize_round_def step_state_def Let_def
            split: sum.splits prod.splits if_splits)
  next
    case False
    with assms ns show ?thesis
      by (auto simp add: tokenize_round_def step_state_def Let_def
            split: sum.splits prod.splits if_splits dest: change_block_pc)
  qed
qed

subsection \<open>A round reads only the text up to its index\<close>

lemma resultAdd_prefix:
  "i0 \<le> i1 \<Longrightarrow> i1 \<le> length pre \<Longrightarrow>
   resultAdd (pre @ x) res i0 i1 = resultAdd pre res i0 i1"
  by (simp add: resultAdd_def substr_def size_sub_def)

lemma op_block_prefix:
  "0 < i \<Longrightarrow> i < length pre \<Longrightarrow> op_block (pre @ x) i res = op_block pre i res"
  by (simp add: op_block_def resultAdd_prefix size_sub_def read_at_def nth_append
        cong: sum.case_cong)

lemma change_block_prefix:
  "ts \<le> i \<Longrightarrow> i < length pre \<Longrightarrow>
   change_block (pre @ x) i prev next (ts, pc, res) = change_block pre i prev next (ts, pc, res)"
  by (simp add: change_block_def Let_def resultAdd_prefix cong: sum.case_cong if_cong)

lemma tokenize_round_prefix:
  assumes "i < length pre" and "ts \<le> i" and "st = Op \<longrightarrow> 0 < i"
  shows "tokenize_round (pre @ x) i st ts pc res = tokenize_round pre i st ts pc res"
  using assms
  by (simp add: tokenize_round_def Let_def nth_append op_block_prefix change_block_prefix
        cong: sum.case_cong if_cong)

subsection \<open>What a round keeps\<close>

lemma change_block_start:
  "change_block str i prev next (ts, pc, res) = Inr (ts', pc', res') \<Longrightarrow>
   ts' = (if next = Token \<or> next = String then i else ts)"
  by (auto simp add: change_block_def Let_def split: sum.splits if_splits)

lemma tokenize_round_inv:
  assumes "tokenize_round str i st ts pc res = Inr (Inr (st', ts', pc', res'))" and "ts \<le> i"
  shows "ts' \<le> i + 1"
proof -
  from assms have "ts' = ts \<or> ts' = i"
    by (auto simp add: tokenize_round_def Let_def split: sum.splits prod.splits if_splits
          dest!: change_block_start)
  with assms(2) show ?thesis by auto
qed

subsection \<open>A round does not depend on the text before a token\<close>

text \<open>
  \<open>tokenStart\<close> is read only in the states \<open>Token\<close> and \<open>String\<close>. In these states the
  index \<open>tsL\<close> into a text \<open>a @ s\<close> and the index \<open>tsR\<close> into \<open>s\<close> name the same character
  when \<open>tsL = length a + tsR\<close>.
\<close>

definition shifted :: "nat \<Rightarrow> State \<Rightarrow> nat \<Rightarrow> nat \<Rightarrow> bool" where
  "shifted n st tsL tsR = (st = Token \<or> st = String \<longrightarrow> tsL = n + tsR)"

lemma read_at_shift: "read_at (a @ s) (length a + i) = read_at s i"
  by (simp add: read_at_def)

lemma resultAdd_shift:
  "resultAdd (a @ s) res (length a + i0) (length a + i1) = resultAdd s res i0 i1"
  by (simp add: resultAdd_def substr_def size_sub_def)

lemma resultAdd_shift_Suc:
  "resultAdd (a @ s) res (length a + i0) (Suc (length a + i1)) = resultAdd s res i0 (Suc i1)"
  using resultAdd_shift [of a s res i0 "Suc i1"] by simp

lemma op_block_shift:
  assumes "0 < i"
  shows "op_block (a @ s) (length a + i) res = op_block s i res"
proof -
  from assms obtain j where i: "i = Suc j" by (cases i) auto
  have "size_sub (length a + i) 1 = length a + j" and "size_sub i 1 = j"
    by (simp_all add: size_sub_def i)
  moreover have "resultAdd (a @ s) res (length a + j) (length a + i) = resultAdd s res j i"
    by (rule resultAdd_shift)
  ultimately show ?thesis
    by (simp add: op_block_def read_at_shift cong: sum.case_cong)
qed

lemma nextStateOf_StringEnd: "fst (nextStateOf st c pc) = StringEnd \<Longrightarrow> st = String"
  by (auto simp add: nextStateOf_def split: if_splits)

lemma change_block_shift:
  assumes "prev = Token \<or> prev = String \<longrightarrow> tsL = length a + tsR"
    and "next = StringEnd \<longrightarrow> prev = String"
  shows "case change_block s i prev next (tsR, pc, res) of
           Inl e \<Rightarrow> change_block (a @ s) (length a + i) prev next (tsL, pc, res) = Inl e
         | Inr (t2, p, r) \<Rightarrow>
             \<exists>t1. change_block (a @ s) (length a + i) prev next (tsL, pc, res) = Inr (t1, p, r) \<and>
                  shifted (length a) next t1 t2"
  using assms
  by (cases prev; cases "next";
      simp add: change_block_def Let_def resultAdd_shift resultAdd_shift_Suc shifted_def
        split: sum.splits)

lemma tokenize_round_shift:
  assumes sh: "shifted (length a) st tsL tsR" and op: "st = Op \<longrightarrow> 0 < i"
  shows "case tokenize_round s i st tsR pc res of
           Inl e \<Rightarrow> tokenize_round (a @ s) (length a + i) st tsL pc res = Inl e
         | Inr (Inl r) \<Rightarrow> tokenize_round (a @ s) (length a + i) st tsL pc res = Inr (Inl r)
         | Inr (Inr (st', t2, p, r)) \<Rightarrow>
             \<exists>t1. tokenize_round (a @ s) (length a + i) st tsL pc res =
                    Inr (Inr (st', t1, p, r)) \<and>
                  shifted (length a) st' t1 t2"
proof -
  let ?ns = "if i = length s then (End, pc) else nextStateOf st (s ! i) pc"
  let ?ob = "if st = Op then op_block s i res else Inr (False, res)"
  let ?cbR = "\<lambda>result1. if st \<noteq> fst ?ns
                   then change_block s i st (fst ?ns) (tsR, snd ?ns, result1)
                   else Inr (tsR, snd ?ns, result1)"
  let ?cbL = "\<lambda>result1. if st \<noteq> fst ?ns
                   then change_block (a @ s) (length a + i) st (fst ?ns) (tsL, snd ?ns, result1)
                   else Inr (tsL, snd ?ns, result1)"
  have nsL: "(if length a + i = length (a @ s) then (End, pc)
              else nextStateOf st ((a @ s) ! (length a + i)) pc) = ?ns"
    by simp
  have obL: "(if st = Op then op_block (a @ s) (length a + i) res else Inr (False, res)) = ?ob"
    using op by (simp add: op_block_shift)
  have roundR: "tokenize_round s i st tsR pc res =
     (case ?ob of
        Inl e \<Rightarrow> Inl e
      | Inr (stop, result1) \<Rightarrow>
          if stop then Inr (Inl result1)
          else
            (case ?cbR result1 of
               Inl e \<Rightarrow> Inl e
             | Inr (tokenStart1, parenCount1, result2) \<Rightarrow>
                 Inr (Inr (fst ?ns, tokenStart1, parenCount1, result2))))"
    by (simp add: tokenize_round_def Let_def)
  have roundL: "tokenize_round (a @ s) (length a + i) st tsL pc res =
     (case ?ob of
        Inl e \<Rightarrow> Inl e
      | Inr (stop, result1) \<Rightarrow>
          if stop then Inr (Inl result1)
          else
            (case ?cbL result1 of
               Inl e \<Rightarrow> Inl e
             | Inr (tokenStart1, parenCount1, result2) \<Rightarrow>
                 Inr (Inr (fst ?ns, tokenStart1, parenCount1, result2))))"
    by (simp only: tokenize_round_def Let_def nsL obL)
  have se: "fst ?ns = StringEnd \<longrightarrow> st = String"
    by (auto dest: nextStateOf_StringEnd)
  have ts: "st = Token \<or> st = String \<longrightarrow> tsL = length a + tsR"
    using sh by (simp add: shifted_def)
  show ?thesis
  proof (cases ?ob)
    case (Inl e)
    then show ?thesis by (simp only: roundL roundR sum.case)
  next
    case (Inr sr)
    obtain stop result1 where sr: "sr = (stop, result1)" by (cases sr)
    show ?thesis
    proof (cases stop)
      case True
      with Inr sr show ?thesis by (simp only: roundL roundR sum.case prod.case if_True)
    next
      case False
      note nostop = False
      show ?thesis
      proof (cases "st = fst ?ns")
        case True
        then have "shifted (length a) (fst ?ns) tsL tsR"
          using sh by simp
        with True Inr sr nostop show ?thesis
          by (simp add: roundL roundR)
      next
        case False
        from change_block_shift [OF ts se, of s i "snd ?ns" result1]
        have cb: "case change_block s i st (fst ?ns) (tsR, snd ?ns, result1) of
           Inl e \<Rightarrow> change_block (a @ s) (length a + i) st (fst ?ns) (tsL, snd ?ns, result1) = Inl e
         | Inr (t2, p, r) \<Rightarrow>
             \<exists>t1. change_block (a @ s) (length a + i) st (fst ?ns) (tsL, snd ?ns, result1) =
                    Inr (t1, p, r) \<and>
                  shifted (length a) (fst ?ns) t1 t2" .
        show ?thesis
        proof (cases "change_block s i st (fst ?ns) (tsR, snd ?ns, result1)")
          case (Inl e)
          with cb have "change_block (a @ s) (length a + i) st (fst ?ns) (tsL, snd ?ns, result1) = Inl e"
            by simp
          with Inl False Inr sr nostop show ?thesis
            by (simp add: roundL roundR)
        next
          case r: (Inr v)
          obtain t2 p r2 where v: "v = (t2, p, r2)" by (cases v)
          with cb r obtain t1 where
            "change_block (a @ s) (length a + i) st (fst ?ns) (tsL, snd ?ns, result1) = Inr (t1, p, r2)"
            and "shifted (length a) (fst ?ns) t1 t2"
            by auto
          with r v False Inr sr nostop show ?thesis
            by (simp add: roundL roundR)
        qed
      qed
    qed
  qed
qed

lemma tokenize_loop_shift:
  "shifted (length a) st tsL tsR \<Longrightarrow> st = Op \<longrightarrow> 0 < i \<Longrightarrow>
   tokenize_loop (a @ s) (length a + i) st tsL pc res = tokenize_loop s i st tsR pc res"
proof (induction "length s + 1 - i" arbitrary: i st tsL tsR pc res)
  case 0
  then have "length s < i" by simp
  then show ?case
    by (simp add: tokenize_loop.simps [of s i] tokenize_loop.simps [of "a @ s" "length a + i"])
next
  case (Suc n)
  then have le: "i \<le> length s" and leL: "length a + i \<le> length (a @ s)"
    by simp_all
  note rs = tokenize_round_shift [OF Suc.prems, where s = s and pc = pc and res = res]
  show ?case
  proof (cases "tokenize_round s i st tsR pc res")
    case (Inl e)
    with rs show ?thesis
      by (simp add: tokenize_loop_round [OF le] tokenize_loop_round [OF leL])
  next
    case (Inr o1)
    show ?thesis
    proof (cases o1)
      case (Inl r)
      with Inr rs show ?thesis
        by (simp add: tokenize_loop_round [OF le] tokenize_loop_round [OF leL])
    next
      case cont: (Inr cfg)
      obtain st' t2 p r where cfg: "cfg = (st', t2, p, r)" by (cases cfg)
      with Inr cont rs obtain t1 where
        rl: "tokenize_round (a @ s) (length a + i) st tsL pc res = Inr (Inr (st', t1, p, r))"
        and sh': "shifted (length a) st' t1 t2"
        by auto
      have "n = length s + 1 - (i + 1)"
        using Suc.hyps(2) by simp
      from Suc.hyps(1) [OF this sh', of p r]
      have "tokenize_loop (a @ s) (length a + (i + 1)) st' t1 p r =
            tokenize_loop s (i + 1) st' t2 p r"
        by simp
      with Inr cont cfg rl show ?thesis
        by (simp add: tokenize_loop_round [OF le] tokenize_loop_round [OF leL])
    qed
  qed
qed

subsection \<open>A comment line is skipped\<close>

lemma tokenize_loop_comment_body:
  "\<forall>c\<in>set body. \<not> isNewline c \<Longrightarrow> isNewline nl \<Longrightarrow>
   tokenize_loop (p @ body @ nl # rest) (length p) Comment ts pc res =
   tokenize_loop (p @ body @ nl # rest) (length p + length body + 1) LineStart ts pc res"
proof (induction body arbitrary: p)
  case Nil
  then show ?case
    by (simp add: tokenize_loop.simps [of _ "length p"] nextStateOf_def change_block_def)
next
  case (Cons c body)
  have "tokenize_loop (p @ (c # body) @ nl # rest) (length p) Comment ts pc res =
        tokenize_loop ((p @ [c]) @ body @ nl # rest) (length (p @ [c])) Comment ts pc res"
    using Cons.prems by (simp add: tokenize_loop.simps [of _ "length p"] nextStateOf_def)
  also have "\<dots> = tokenize_loop ((p @ [c]) @ body @ nl # rest)
                      (length (p @ [c]) + length body + 1) LineStart ts pc res"
    using Cons.prems by (intro Cons.IH) auto
  finally show ?case by simp
qed

lemma tokenize_loop_skip_comment:
  assumes "\<forall>c\<in>set body. \<not> isNewline c" and "isNewline nl"
  shows "tokenize_loop (p @ CHR ''%'' # body @ nl # rest) (length p) LineStart ts pc res =
         tokenize_loop (p @ CHR ''%'' # body @ nl # rest) (length p + length body + 2)
           LineStart ts pc res"
proof -
  have "tokenize_loop (p @ CHR ''%'' # body @ nl # rest) (length p) LineStart ts pc res =
        tokenize_loop ((p @ [CHR ''%'']) @ body @ nl # rest) (length (p @ [CHR ''%'']))
          Comment ts pc res"
    by (simp add: tokenize_loop.simps [of _ "length p"] nextStateOf_def change_block_def)
  also have "\<dots> = tokenize_loop ((p @ [CHR ''%'']) @ body @ nl # rest)
                      (length (p @ [CHR ''%'']) + length body + 1) LineStart ts pc res"
    by (rule tokenize_loop_comment_body [OF assms])
  finally show ?thesis by simp
qed

lemma tokenize_loop_remove_comment:
  assumes body: "\<forall>c\<in>set body. \<not> isNewline c" and nl: "isNewline nl"
  shows "i \<le> length pre \<Longrightarrow> ts \<le> i \<Longrightarrow> st = Op \<longrightarrow> 0 < i \<Longrightarrow>
         fst (foldl step_state (st, pc) (drop i pre)) = LineStart \<Longrightarrow>
         tokenize_loop (pre @ CHR ''%'' # body @ nl # rest) i st ts pc res =
         tokenize_loop (pre @ rest) i st ts pc res"
proof (induction "length pre - i" arbitrary: i st ts pc res)
  case 0
  then have i: "i = length pre" and st: "st = LineStart"
    by simp_all
  let ?cm = "CHR ''%'' # body @ [nl]"
  have "tokenize_loop (pre @ CHR ''%'' # body @ nl # rest) (length pre) LineStart ts pc res =
        tokenize_loop (pre @ CHR ''%'' # body @ nl # rest) (length pre + length body + 2)
          LineStart ts pc res"
    by (rule tokenize_loop_skip_comment [OF body nl])
  also have "\<dots> = tokenize_loop ((pre @ ?cm) @ rest) (length (pre @ ?cm) + 0) LineStart ts pc res"
    by simp
  also have "\<dots> = tokenize_loop rest 0 LineStart ts pc res"
    by (rule tokenize_loop_shift) (simp_all add: shifted_def)
  also have "\<dots> = tokenize_loop (pre @ rest) (length pre + 0) LineStart ts pc res"
    by (rule tokenize_loop_shift [symmetric]) (simp_all add: shifted_def)
  finally show ?case using i st by simp
next
  case (Suc n)
  then have lt: "i < length pre" by simp
  let ?A = "pre @ CHR ''%'' # body @ nl # rest"
  let ?B = "pre @ rest"
  have leA: "i \<le> length ?A" and leB: "i \<le> length ?B"
    using lt by simp_all
  have rA: "tokenize_round ?A i st ts pc res = tokenize_round pre i st ts pc res"
    by (rule tokenize_round_prefix [OF lt Suc.prems(2) Suc.prems(3)])
  have rB: "tokenize_round ?B i st ts pc res = tokenize_round pre i st ts pc res"
    by (rule tokenize_round_prefix [OF lt Suc.prems(2) Suc.prems(3)])
  show ?case
  proof (cases "tokenize_round pre i st ts pc res")
    case (Inl e)
    then show ?thesis
      by (simp add: tokenize_loop_round [OF leA] tokenize_loop_round [OF leB] rA rB)
  next
    case (Inr o1)
    show ?thesis
    proof (cases o1)
      case (Inl r)
      with Inr show ?thesis
        by (simp add: tokenize_loop_round [OF leA] tokenize_loop_round [OF leB] rA rB)
    next
      case cont: (Inr cfg)
      obtain st' ts' pc' res' where cfg: "cfg = (st', ts', pc', res')" by (cases cfg)
      with Inr cont have round: "tokenize_round pre i st ts pc res = Inr (Inr (st', ts', pc', res'))"
        by simp
      from tokenize_round_step [OF lt round]
      have step: "(st', pc') = step_state (st, pc) (pre ! i)" .
      have "drop i pre = pre ! i # drop (Suc i) pre"
        using lt by (simp add: Cons_nth_drop_Suc)
      with Suc.prems(4) step
      have st': "fst (foldl step_state (st', pc') (drop (i + 1) pre)) = LineStart"
        by simp
      have ts': "ts' \<le> i + 1"
        by (rule tokenize_round_inv [OF round Suc.prems(2)])
      have n: "n = length pre - (i + 1)"
        using Suc.hyps(2) by simp
      have "tokenize_loop ?A (i + 1) st' ts' pc' res' = tokenize_loop ?B (i + 1) st' ts' pc' res'"
        using lt by (intro Suc.hyps(1) [OF n _ ts' _ st']) simp_all
      with round show ?thesis
        by (simp add: tokenize_loop_round [OF leA] tokenize_loop_round [OF leB] rA rB)
    qed
  qed
qed

lemma tokenize_comment_removed:
  assumes "fst (state_after pre) = LineStart"
    and "\<forall>c\<in>set body. \<not> isNewline c" and "isNewline nl"
  shows "tokenize (pre @ CHR ''%'' # body @ nl # rest) = tokenize (pre @ rest)"
  unfolding tokenize_def
  using assms(1)
  by (intro tokenize_loop_remove_comment [OF assms(2) assms(3)])
     (simp_all add: state_after_def)

subsection \<open>Where the automaton is in \<open>LineStart\<close>\<close>

lemma state_after_snoc: "state_after (pre @ [c]) = step_state (state_after pre) c"
  by (simp add: state_after_def)

lemma percent_not_newline: "\<not> isNewline CHR ''%''"
  by (simp add: isNewline_def isAny_def)

lemma step_state_LineStart:
  "fst (step_state sp c) = LineStart \<longleftrightarrow> isNewline c \<and> fst sp \<noteq> String"
  using percent_not_newline
  by (cases sp) (auto simp add: step_state_def nextStateOf_def split: prod.splits if_splits)

lemma state_after_LineStart:
  "fst (state_after pre) = LineStart \<longleftrightarrow>
     pre = [] \<or> isNewline (last pre) \<and> fst (state_after (butlast pre)) \<noteq> String"
proof (cases pre rule: rev_cases)
  case Nil
  then show ?thesis by (simp add: state_after_def)
next
  case (snoc p c)
  then show ?thesis
    by (simp add: state_after_snoc step_state_LineStart)
qed

lemma step_state_percent:
  "fst sp = Token \<or> fst sp = Space \<or> fst sp = StringEnd \<or> fst sp = Op \<Longrightarrow>
   fst (step_state sp CHR ''%'') = Token"
  by (cases sp)
     (auto simp add: step_state_def nextStateOf_def isNewline_def isWhitespace_def isAny_def)


lemma state_after_percent:
  "fst (state_after (pre @ [CHR ''%''])) =
     (case fst (state_after pre) of
        LineStart \<Rightarrow> Comment | Comment \<Rightarrow> Comment | String \<Rightarrow> String | _ \<Rightarrow> Token)"
  by (cases "fst (state_after pre)")
     (simp_all add: state_after_snoc step_state_def nextStateOf_def isNewline_def
        isWhitespace_def isAny_def split: prod.splits)

subsection \<open>A \<open>%\<close> that begins a token\<close>

text \<open>
  The characters on which the automaton stays in \<open>Token\<close>: no newline, no whitespace, no
  operator and no \<open>(\<close>.
\<close>

definition token_char :: "char \<Rightarrow> bool" where
  "token_char c =
     (\<not> isNewline c \<and> \<not> isWhitespace c \<and> \<not> isAny c '':[],;'' \<and> c \<noteq> CHR ''('')"

lemma tokenize_loop_token_run:
  "\<forall>c\<in>set w. token_char c \<Longrightarrow>
   tokenize_loop (p @ w @ r) (length p) Token ts pc res =
   tokenize_loop (p @ w @ r) (length p + length w) Token ts pc res"
proof (induction w arbitrary: p)
  case Nil
  show ?case by simp
next
  case (Cons c w)
  have "tokenize_loop (p @ (c # w) @ r) (length p) Token ts pc res =
        tokenize_loop ((p @ [c]) @ w @ r) (length (p @ [c])) Token ts pc res"
    using Cons.prems
    by (simp add: tokenize_loop.simps [of _ "length p"] nextStateOf_def token_char_def)
  also have "\<dots> = tokenize_loop ((p @ [c]) @ w @ r) (length (p @ [c]) + length w) Token ts pc res"
    using Cons.prems by (intro Cons.IH) auto
  finally show ?case by simp
qed

lemma tokenize_loop_end_LineStart:
  "tokenize_loop str (length str) LineStart ts pc res = Inr res"
  by (simp add: tokenize_loop.simps [of str "length str"] change_block_def
        tokenize_loop_past_end)

lemma newline_not_semicolon: "isNewline nl \<Longrightarrow> nl \<noteq> CHR '';''"
  by (auto simp add: isNewline_def isAny_def)

lemma newline_next: "isNewline nl \<Longrightarrow> st \<noteq> String \<Longrightarrow> st \<noteq> Comment \<Longrightarrow>
  nextStateOf st nl pc = (LineStart, pc)"
  using percent_not_newline by (auto simp add: nextStateOf_def)

lemma percent_next:
  "st = Space \<or> st = StringEnd \<or> st = Op \<Longrightarrow> nextStateOf st CHR ''%'' pc = (Token, pc)"
  by (auto simp add: nextStateOf_def isNewline_def isWhitespace_def isAny_def)

lemma op_block_inside:
  assumes "0 < i" and "i < length str" and "str ! i \<noteq> CHR '';''"
  shows "op_block str i res = Inr (False, res @ [[str ! (i - 1)]])"
proof -
  from assms obtain j where i: "i = Suc j" by (cases i) auto
  have "take (Suc 0) (drop j str) = [str ! j]"
    using assms i by (simp add: take_Suc_conv_app_nth)
  then show ?thesis
    using assms by (simp add: op_block_def resultAdd_def substr_def size_sub_def read_at_def i)
qed

lemma tokenize_loop_percent_word:
  assumes st: "st = Space \<or> st = StringEnd \<or> st = Op" and op: "st = Op \<longrightarrow> pre \<noteq> []"
    and w: "\<forall>c\<in>set w. token_char c" and nl: "isNewline nl"
  shows "tokenize_loop (pre @ CHR ''%'' # w @ [nl]) (length pre) st ts pc res =
         (case tokenize_loop (pre @ [nl]) (length pre) st ts pc res of
            Inl e \<Rightarrow> Inl e
          | Inr t \<Rightarrow> Inr (t @ [CHR ''%'' # w]))"
proof -
  let ?A = "pre @ CHR ''%'' # w @ [nl]"
  let ?B = "pre @ [nl]"
  define res' where "res' = (if st = Op then res @ [[pre ! (length pre - 1)]] else res)"
  have obA: "(if st = Op then op_block ?A (length pre) res else Inr (False, res)) = Inr (False, res')"
    using op op_block_inside [of "length pre" ?A res]
    by (auto simp add: res'_def nth_append)
  have obB: "(if st = Op then op_block ?B (length pre) res else Inr (False, res)) = Inr (False, res')"
    using op op_block_inside [of "length pre" ?B res] newline_not_semicolon [OF nl]
    by (auto simp add: res'_def nth_append)
  have B1: "tokenize_loop ?B (length pre) st ts pc res =
            tokenize_loop ?B (length ?B) LineStart ts pc res'"
    using st newline_next [OF nl, of st pc]
    by (auto simp add: tokenize_loop.simps [of ?B "length pre"] obB change_block_def)
  have B: "tokenize_loop ?B (length pre) st ts pc res = Inr res'"
    unfolding B1 by (rule tokenize_loop_end_LineStart)
  have A1: "tokenize_loop ?A (length pre) st ts pc res =
            tokenize_loop ((pre @ [CHR ''%'']) @ w @ [nl]) (length (pre @ [CHR ''%'']))
              Token (length pre) pc res'"
    using st percent_next [OF st, of pc]
    by (auto simp add: tokenize_loop.simps [of ?A "length pre"] obA change_block_def)
  have A2: "\<dots> = tokenize_loop ((pre @ [CHR ''%'']) @ w @ [nl])
                    (length (pre @ [CHR ''%'']) + length w) Token (length pre) pc res'"
    by (rule tokenize_loop_token_run [OF w])
  have tok: "take (Suc (length w)) (drop (length pre) ?A) = CHR ''%'' # w"
    by simp
  have A3: "tokenize_loop ?A (Suc (length pre + length w)) Token (length pre) pc res' =
            tokenize_loop ?A (length ?A) LineStart (length pre) pc (res' @ [CHR ''%'' # w])"
    using newline_next [OF nl, of Token pc] tok
    by (simp add: tokenize_loop.simps [of ?A "Suc (length pre + length w)"] change_block_def
          resultAdd_def substr_def size_sub_def nth_append)
  have "tokenize_loop ?A (length pre) st ts pc res = Inr (res' @ [CHR ''%'' # w])"
    using A1 A2 A3 tokenize_loop_end_LineStart [of ?A "length pre" pc "res' @ [CHR ''%'' # w]"]
    by simp
  with B show ?thesis by simp
qed

lemma tokenize_round_return:
  "tokenize_round str i st ts pc res = Inr (Inl r) \<Longrightarrow> i < length str \<and> str ! i = CHR '';''"
  by (auto simp add: tokenize_round_def Let_def op_block_def read_at_def
        split: sum.splits prod.splits if_splits)

lemma tokenize_loop_percent_in_token:
  assumes ts: "ts \<le> length pre" and w: "\<forall>c\<in>set w. token_char c" and nl: "isNewline nl"
  shows "tokenize_loop (pre @ CHR ''%'' # w @ [nl]) (length pre) Token ts pc res =
         (case tokenize_loop (pre @ [nl]) (length pre) Token ts pc res of
            Inl e \<Rightarrow> Inl e
          | Inr t \<Rightarrow> Inr (butlast t @ [last t @ CHR ''%'' # w]))"
proof -
  let ?A = "pre @ CHR ''%'' # w @ [nl]"
  let ?B = "pre @ [nl]"
  have tokB: "take (length pre - ts) (drop ts ?B) = drop ts pre"
    using ts by simp
  have B1: "tokenize_loop ?B (length pre) Token ts pc res =
            tokenize_loop ?B (length ?B) LineStart ts pc (res @ [drop ts pre])"
    using newline_next [OF nl, of Token pc] ts tokB
    by (simp add: tokenize_loop.simps [of ?B "length pre"] change_block_def
          resultAdd_def substr_def size_sub_def)
  have B: "tokenize_loop ?B (length pre) Token ts pc res = Inr (res @ [drop ts pre])"
    unfolding B1 by (rule tokenize_loop_end_LineStart)
  have w': "\<forall>c\<in>set (CHR ''%'' # w). token_char c"
    using w by (simp add: token_char_def isNewline_def isWhitespace_def isAny_def)
  have A1: "tokenize_loop (pre @ (CHR ''%'' # w) @ [nl]) (length pre) Token ts pc res =
            tokenize_loop (pre @ (CHR ''%'' # w) @ [nl]) (length pre + length (CHR ''%'' # w))
              Token ts pc res"
    by (rule tokenize_loop_token_run [OF w'])
  have tokA: "take (Suc (length pre + length w) - ts) (drop ts ?A) = drop ts pre @ CHR ''%'' # w"
    using ts by (simp add: Suc_diff_le)
  have A2: "tokenize_loop ?A (Suc (length pre + length w)) Token ts pc res =
            tokenize_loop ?A (length ?A) LineStart ts pc (res @ [drop ts pre @ CHR ''%'' # w])"
    using newline_next [OF nl, of Token pc] ts tokA
    by (simp add: tokenize_loop.simps [of ?A "Suc (length pre + length w)"] change_block_def
          resultAdd_def substr_def size_sub_def nth_append)
  have "tokenize_loop ?A (length pre) Token ts pc res = Inr (res @ [drop ts pre @ CHR ''%'' # w])"
    using A1 A2 tokenize_loop_end_LineStart [of ?A ts pc "res @ [drop ts pre @ CHR ''%'' # w]"]
    by simp
  with B show ?thesis by simp
qed

lemma tokenize_loop_after_prefix:
  assumes base: "\<And>st ts pc res. ts \<le> length pre \<Longrightarrow> st = Op \<longrightarrow> pre \<noteq> [] \<Longrightarrow> P st \<Longrightarrow>
      tokenize_loop (pre @ x) (length pre) st ts pc res =
      (case tokenize_loop (pre @ y) (length pre) st ts pc res of
         Inl e \<Rightarrow> Inl e
       | Inr t \<Rightarrow> Inr (g t))"
  shows "i \<le> length pre \<Longrightarrow> ts \<le> i \<Longrightarrow> st = Op \<longrightarrow> 0 < i \<Longrightarrow>
         CHR '';'' \<notin> set (drop i pre) \<Longrightarrow>
         P (fst (foldl step_state (st, pc) (drop i pre))) \<Longrightarrow>
         tokenize_loop (pre @ x) i st ts pc res =
         (case tokenize_loop (pre @ y) i st ts pc res of
            Inl e \<Rightarrow> Inl e
          | Inr t \<Rightarrow> Inr (g t))"
proof (induction "length pre - i" arbitrary: i st ts pc res)
  case 0
  then have i: "i = length pre" and st: "P st"
    by simp_all
  from "0.prems"(3) i have op: "st = Op \<longrightarrow> pre \<noteq> []" by auto
  from "0.prems"(2) i have "ts \<le> length pre" by simp
  from base [OF this op st] i show ?case by simp
next
  case (Suc n)
  then have lt: "i < length pre" by simp
  let ?A = "pre @ x"
  let ?B = "pre @ y"
  have leA: "i \<le> length ?A" and leB: "i \<le> length ?B"
    using lt by simp_all
  have rA: "tokenize_round ?A i st ts pc res = tokenize_round pre i st ts pc res"
    by (rule tokenize_round_prefix [OF lt Suc.prems(2) Suc.prems(3)])
  have rB: "tokenize_round ?B i st ts pc res = tokenize_round pre i st ts pc res"
    by (rule tokenize_round_prefix [OF lt Suc.prems(2) Suc.prems(3)])
  have dr: "drop i pre = pre ! i # drop (Suc i) pre"
    using lt by (simp add: Cons_nth_drop_Suc)
  show ?case
  proof (cases "tokenize_round pre i st ts pc res")
    case (Inl e)
    then show ?thesis
      by (simp add: tokenize_loop_round [OF leA] tokenize_loop_round [OF leB] rA rB)
  next
    case (Inr o1)
    show ?thesis
    proof (cases o1)
      case (Inl r)
      with Inr have "pre ! i = CHR '';''"
        by (auto dest: tokenize_round_return)
      with Suc.prems(4) dr show ?thesis by simp
    next
      case cont: (Inr cfg)
      obtain st' ts' pc' res' where cfg: "cfg = (st', ts', pc', res')" by (cases cfg)
      with Inr cont have round: "tokenize_round pre i st ts pc res = Inr (Inr (st', ts', pc', res'))"
        by simp
      from tokenize_round_step [OF lt round]
      have step: "(st', pc') = step_state (st, pc) (pre ! i)" .
      with Suc.prems(5) dr
      have st': "P (fst (foldl step_state (st', pc') (drop (i + 1) pre)))"
        by simp
      have semi: "CHR '';'' \<notin> set (drop (i + 1) pre)"
        using Suc.prems(4) dr by simp
      have ts': "ts' \<le> i + 1"
        by (rule tokenize_round_inv [OF round Suc.prems(2)])
      have n: "n = length pre - (i + 1)"
        using Suc.hyps(2) by simp
      have "tokenize_loop ?A (i + 1) st' ts' pc' res' =
            (case tokenize_loop ?B (i + 1) st' ts' pc' res' of
               Inl e \<Rightarrow> Inl e
             | Inr t \<Rightarrow> Inr (g t))"
        using lt by (intro Suc.hyps(1) [OF n _ ts' _ semi st']) simp_all
      with round show ?thesis
        by (simp add: tokenize_loop_round [OF leA] tokenize_loop_round [OF leB] rA rB)
    qed
  qed
qed

lemma tokenize_percent_token:
  assumes st: "fst (state_after pre) = Space \<or> fst (state_after pre) = StringEnd \<or>
           fst (state_after pre) = Op"
    and semi: "CHR '';'' \<notin> set pre"
    and w: "\<forall>c\<in>set w. token_char c" and nl: "isNewline nl"
  shows "tokenize (pre @ CHR ''%'' # w @ [nl]) =
         (case tokenize (pre @ [nl]) of
            Inl e \<Rightarrow> Inl e
          | Inr t \<Rightarrow> Inr (t @ [CHR ''%'' # w]))"
proof -
  let ?P = "\<lambda>st. st = Space \<or> st = StringEnd \<or> st = Op"
  have base: "tokenize_loop (pre @ CHR ''%'' # w @ [nl]) (length pre) st ts pc res =
      (case tokenize_loop (pre @ [nl]) (length pre) st ts pc res of
         Inl e \<Rightarrow> Inl e
       | Inr t \<Rightarrow> Inr (t @ [CHR ''%'' # w]))"
    if "ts \<le> length pre" "st = Op \<longrightarrow> pre \<noteq> []" "?P st" for st ts pc res
    using that(3) that(2) w nl by (rule tokenize_loop_percent_word)
  have P0: "?P (fst (foldl step_state (LineStart, 0) (drop 0 pre)))"
    using st unfolding state_after_def by simp
  have "tokenize_loop (pre @ CHR ''%'' # w @ [nl]) 0 LineStart 0 0 [] =
        (case tokenize_loop (pre @ [nl]) 0 LineStart 0 0 [] of
           Inl e \<Rightarrow> Inl e
         | Inr t \<Rightarrow> Inr (t @ [CHR ''%'' # w]))"
  proof (rule tokenize_loop_after_prefix [where P = ?P])
    show "?P (fst (foldl step_state (LineStart, 0) (drop 0 pre)))" by (rule P0)
    show "CHR '';'' \<notin> set (drop 0 pre)" using semi by simp
  qed (simp_all add: base)
  then show ?thesis unfolding tokenize_def .
qed

lemma tokenize_percent_in_token:
  assumes st: "fst (state_after pre) = Token"
    and semi: "CHR '';'' \<notin> set pre"
    and w: "\<forall>c\<in>set w. token_char c" and nl: "isNewline nl"
  shows "tokenize (pre @ CHR ''%'' # w @ [nl]) =
         (case tokenize (pre @ [nl]) of
            Inl e \<Rightarrow> Inl e
          | Inr t \<Rightarrow> Inr (butlast t @ [last t @ CHR ''%'' # w]))"
proof -
  let ?P = "\<lambda>st. st = Token"
  have base: "tokenize_loop (pre @ CHR ''%'' # w @ [nl]) (length pre) st ts pc res =
      (case tokenize_loop (pre @ [nl]) (length pre) st ts pc res of
         Inl e \<Rightarrow> Inl e
       | Inr t \<Rightarrow> Inr (butlast t @ [last t @ CHR ''%'' # w]))"
    if "ts \<le> length pre" "?P st" for st ts pc res
    unfolding that(2) using that(1) w nl by (rule tokenize_loop_percent_in_token)
  have P0: "?P (fst (foldl step_state (LineStart, 0) (drop 0 pre)))"
    using st unfolding state_after_def by simp
  have "tokenize_loop (pre @ CHR ''%'' # w @ [nl]) 0 LineStart 0 0 [] =
        (case tokenize_loop (pre @ [nl]) 0 LineStart 0 0 [] of
           Inl e \<Rightarrow> Inl e
         | Inr t \<Rightarrow> Inr (butlast t @ [last t @ CHR ''%'' # w]))"
  proof (rule tokenize_loop_after_prefix [where P = ?P])
    show "?P (fst (foldl step_state (LineStart, 0) (drop 0 pre)))" by (rule P0)
    show "CHR '';'' \<notin> set (drop 0 pre)" using semi by simp
  qed (simp_all add: base)
  then show ?thesis unfolding tokenize_def .
qed

subsection \<open>The \<open>;\<close> token\<close>

text \<open>
  C2: the specification lets the tokenizer return as soon as it has emitted a \<open>;\<close> token,
  that token being the last one. The code emits the operator at index \<open>i-1\<close> and then tests
  the character at index \<open>i\<close>: on \<open>a;b\<close> it emits \<open>;\<close> and goes on to emit \<open>b\<close>, and on
  \<open>A: [1,2,3];extra\<close> it returns after emitting \<open>]\<close>, without any \<open>;\<close> token.
\<close>

theorem tokenize_semicolon_off_by_one:
  "tokenize ''a;b'' = Inr [''a'', '';'', ''b''] \<and>
   tokenize ''A: [1,2,3];extra'' =
     Inr [''A'', '':'', ''['', ''1'', '','', ''2'', '','', ''3'', '']'']"
  by code_simp

subsection \<open>Reads past the end of the text\<close>

text \<open>
  C8: the specification has every index that reads the text within bounds. When the text
  ends in an operator character that the automaton reads as an operator, the last round of
  the loop (\<open>i = str.size()\<close>) emits that operator and then reads \<^verbatim>\<open>str[i]\<close>, one past the
  end of the \<^verbatim>\<open>string_view\<close> (\<open>tokenize_loop_end_in_Op\<close> is the general fact).
\<close>

theorem tokenize_reads_past_end:
  "tokenize '':'' = Inl OutOfBounds \<and>
   tokenize ''a;'' = Inl OutOfBounds \<and>
   tokenize ''Affine: [1,2,3]'' = Inl OutOfBounds"
  by code_simp

subsection \<open>Comments\<close>

text \<open>
  C7, as the specification states it: a \<open>%\<close> after a completed token or after spaces begins
  a comment, so that \<open>a % b\<close> followed by a newline yields only the token \<open>a\<close>. On that text
  the code yields three tokens.
\<close>

theorem percent_after_token_counterexample:
  "tokenize ''a % b\<newline>'' \<noteq> Inr [''a'']"
  by code_simp

text \<open>
  C7, amended: a \<open>%\<close> begins a comment exactly when the automaton reads it in the state
  \<open>LineStart\<close>, that is when it is the first character of the text or comes right after a
  newline character that was read outside a string literal. The comment then runs up to and
  including the next newline character, no token is emitted for it, and tokenizing resumes
  after it: the text yields what it yields with the comment line removed. A \<open>%\<close> read in any
  other state begins no comment. Inside a string literal it stays part of the literal, also
  right after a newline. After a space, a string literal or an operator it begins an
  ordinary token, and after token characters it is one more character of that token: with
  token characters \<open>w\<close> up to the next newline and no \<open>;\<close> in the text before it, the token
  \<open>%w\<close> is emitted, or the last token is extended by \<open>%w\<close>. So \<open>a % b\<close> followed by a
  newline yields the tokens \<open>a\<close>, \<open>%\<close> and \<open>b\<close>.
\<close>

theorem percent_comment_only_at_line_start:
  assumes body: "\<forall>c\<in>set body. \<not> isNewline c" and nl: "isNewline nl"
    and w: "\<forall>c\<in>set w. token_char c"
  shows "(fst (state_after pre) = LineStart \<longleftrightarrow>
            pre = [] \<or> isNewline (last pre) \<and> fst (state_after (butlast pre)) \<noteq> String) \<and>
         fst (state_after (pre @ [CHR ''%''])) =
           (case fst (state_after pre) of
              LineStart \<Rightarrow> Comment | Comment \<Rightarrow> Comment | String \<Rightarrow> String | _ \<Rightarrow> Token) \<and>
         (fst (state_after pre) = LineStart \<longrightarrow>
            tokenize (pre @ CHR ''%'' # body @ nl # rest) = tokenize (pre @ rest)) \<and>
         ((fst (state_after pre) = Space \<or> fst (state_after pre) = StringEnd \<or>
           fst (state_after pre) = Op) \<and> CHR '';'' \<notin> set pre \<longrightarrow>
            tokenize (pre @ CHR ''%'' # w @ [nl]) =
              (case tokenize (pre @ [nl]) of
                 Inl e \<Rightarrow> Inl e
               | Inr t \<Rightarrow> Inr (t @ [CHR ''%'' # w]))) \<and>
         (fst (state_after pre) = Token \<and> CHR '';'' \<notin> set pre \<longrightarrow>
            tokenize (pre @ CHR ''%'' # w @ [nl]) =
              (case tokenize (pre @ [nl]) of
                 Inl e \<Rightarrow> Inl e
               | Inr t \<Rightarrow> Inr (butlast t @ [last t @ CHR ''%'' # w]))) \<and>
         tokenize (CHR ''%'' # body @ [nl]) = Inr [] \<and>
         nextStateOf LineStart CHR ''%'' parenCount = (Comment, parenCount) \<and>
         nextStateOf Token CHR ''%'' parenCount = (Token, parenCount) \<and>
         nextStateOf Space CHR ''%'' parenCount = (Token, parenCount) \<and>
         nextStateOf StringEnd CHR ''%'' parenCount = (Token, parenCount) \<and>
         nextStateOf Op CHR ''%'' parenCount = (Token, parenCount) \<and>
         tokenize ''a % b\<newline>'' = Inr [''a'', ''%'', ''b''] \<and>
         tokenize ''(x\<newline>%)\<newline>'' = Inr [''(x\<newline>%)'']"
proof -
  have ex1: "tokenize ''a % b\<newline>'' = Inr [''a'', ''%'', ''b'']"
    by code_simp
  have ex2: "tokenize ''(x\<newline>%)\<newline>'' = Inr [''(x\<newline>%)'']"
    by code_simp
  have ns: "nextStateOf Token CHR ''%'' parenCount = (Token, parenCount)"
    "nextStateOf Space CHR ''%'' parenCount = (Token, parenCount)"
    "nextStateOf StringEnd CHR ''%'' parenCount = (Token, parenCount)"
    "nextStateOf Op CHR ''%'' parenCount = (Token, parenCount)"
    "nextStateOf LineStart CHR ''%'' parenCount = (Comment, parenCount)"
    by (simp_all add: nextStateOf_def isNewline_def isWhitespace_def isAny_def)
  have removed: "fst (state_after pre) = LineStart \<longrightarrow>
      tokenize (pre @ CHR ''%'' # body @ nl # rest) = tokenize (pre @ rest)"
    using tokenize_comment_removed [OF _ body nl] by blast
  have begins: "(fst (state_after pre) = Space \<or> fst (state_after pre) = StringEnd \<or>
      fst (state_after pre) = Op) \<and> CHR '';'' \<notin> set pre \<longrightarrow>
      tokenize (pre @ CHR ''%'' # w @ [nl]) =
        (case tokenize (pre @ [nl]) of
           Inl e \<Rightarrow> Inl e
         | Inr t \<Rightarrow> Inr (t @ [CHR ''%'' # w]))"
    using tokenize_percent_token [OF _ _ w nl] by blast
  have continues: "fst (state_after pre) = Token \<and> CHR '';'' \<notin> set pre \<longrightarrow>
      tokenize (pre @ CHR ''%'' # w @ [nl]) =
        (case tokenize (pre @ [nl]) of
           Inl e \<Rightarrow> Inl e
         | Inr t \<Rightarrow> Inr (butlast t @ [last t @ CHR ''%'' # w]))"
    using tokenize_percent_in_token [OF _ _ w nl] by blast
  show ?thesis
    by (intro conjI state_after_LineStart state_after_percent removed begins continues
          tokenize_comment_line [OF body nl] ns ex1 ex2)
qed

theorem percent_comment_only_at_line_start_witness:
  "isNewline CHR 0x0A \<and>
   fst (state_after ''a\<newline>'') = LineStart \<and>
   tokenize ''a\<newline>% c\<newline>b\<newline>'' = Inr [''a'', ''b''] \<and>
   fst (state_after ''a '') = Space \<and>
   tokenize ''a %x\<newline>'' = Inr [''a'', ''%x''] \<and>
   fst (state_after ''a'') = Token \<and>
   tokenize ''a%x\<newline>'' = Inr [''a%x''] \<and>
   fst (state_after ''(x\<newline>'') = String \<and>
   fst (state_after ''(x\<newline>%'') = String \<and>
   tokenize ''% c\<newline>'' = Inr []"
proof -
  have body: "\<forall>c\<in>set '' c''. \<not> isNewline c"
    by (simp add: isNewline_def isAny_def)
  have nl: "isNewline CHR 0x0A"
    by (simp add: isNewline_def isAny_def)
  have w: "\<forall>c\<in>set ''x''. token_char c"
    by (simp add: token_char_def isNewline_def isWhitespace_def isAny_def)
  have s1: "fst (state_after ''a\<newline>'') = LineStart"
    and s2: "fst (state_after ''a '') = Space"
    and s3: "fst (state_after ''a'') = Token"
    and s4: "fst (state_after ''(x\<newline>'') = String"
    by code_simp+
  have t1: "tokenize ''a\<newline>b\<newline>'' = Inr [''a'', ''b'']"
    and t2: "tokenize ''a \<newline>'' = Inr [''a'']"
    and t3: "tokenize ''a\<newline>'' = Inr [''a'']"
    by code_simp+
  note inst = percent_comment_only_at_line_start [OF body nl w]
  from inst [where pre = "''a\<newline>''" and rest = "''b\<newline>''"] s1 t1
  have c1: "tokenize ''a\<newline>% c\<newline>b\<newline>'' = Inr [''a'', ''b'']"
    by simp
  from inst [where pre = "''a ''"] s2 t2
  have c2: "tokenize ''a %x\<newline>'' = Inr [''a'', ''%x'']"
    by simp
  from inst [where pre = "''a''"] s3 t3
  have c3: "tokenize ''a%x\<newline>'' = Inr [''a%x'']"
    by simp
  from inst [where pre = "''(x\<newline>''"] s4
  have c4: "fst (state_after ''(x\<newline>%'') = String"
    by simp
  from inst [where pre = "[]"]
  have c5: "tokenize ''% c\<newline>'' = Inr []"
    by simp
  show ?thesis
    using nl s1 c1 s2 c2 s3 c3 s4 c4 c5 by simp
qed

section \<open>Claims about the element grammar\<close>

lemma scan_members_run:
  "'']'' \<notin> set ms \<Longrightarrow>
   scan_members (pre @ ms @ '']'' # rest) (length pre) count =
     (length pre + length ms, count + length ms)"
proof (induction ms arbitrary: pre count)
  case Nil
  show ?case
    by (simp add: scan_members.simps [of _ "length pre"])
next
  case (Cons m ms)
  have "scan_members (pre @ (m # ms) @ '']'' # rest) (length pre) count =
        scan_members ((pre @ [m]) @ ms @ '']'' # rest) (length (pre @ [m])) (count + 1)"
    using Cons.prems by (auto simp add: scan_members.simps [of _ "length pre"])
  also have "\<dots> = (length (pre @ [m]) + length ms, count + 1 + length ms)"
    using Cons.prems by (intro Cons.IH) simp
  finally show ?case by simp
qed


text \<open>
  C3, as the specification states it: on the tokens of \<open>Affine: [1,2,3,4,5,6,7,8,9]\<close>,
  \<^verbatim>\<open>parseElement\<close> at position 0 succeeds with 9 members. Tokenizing that very text reads
  past its end (it ends in the operator \<open>]\<close>); on the tokens that the text followed by a
  newline gives, the loop of the bounded case counts the 9 numbers and the 8 commas, 17 is
  not 9, and \<^verbatim>\<open>parseElement\<close> fails.
\<close>

theorem parseElement_Affine_commas_counterexample:
  "\<not> (\<exists>tkn e i. tokenize ''Affine: [1,2,3,4,5,6,7,8,9]'' = Inr tkn \<and>
         parseElement tkn 0 = Some (e, i) \<and> length (members e) = 9) \<and>
   tokenize ''Affine: [1,2,3,4,5,6,7,8,9]\<newline>'' =
     Inr [''Affine'', '':'', ''['', ''1'', '','', ''2'', '','', ''3'', '','', ''4'', '','',
          ''5'', '','', ''6'', '','', ''7'', '','', ''8'', '','', ''9'', '']''] \<and>
   parseElement
     [''Affine'', '':'', ''['', ''1'', '','', ''2'', '','', ''3'', '','', ''4'', '','',
      ''5'', '','', ''6'', '','', ''7'', '','', ''8'', '','', ''9'', '']''] 0 = None"
proof -
  have "tokenize ''Affine: [1,2,3,4,5,6,7,8,9]'' = Inl OutOfBounds"
    by code_simp
  then have "\<not> (\<exists>tkn e i. tokenize ''Affine: [1,2,3,4,5,6,7,8,9]'' = Inr tkn \<and>
         parseElement tkn 0 = Some (e, i) \<and> length (members e) = 9)"
    by simp
  moreover have "tokenize ''Affine: [1,2,3,4,5,6,7,8,9]\<newline>'' =
     Inr [''Affine'', '':'', ''['', ''1'', '','', ''2'', '','', ''3'', '','', ''4'', '','',
          ''5'', '','', ''6'', '','', ''7'', '','', ''8'', '','', ''9'', '']'']"
    by code_simp
  moreover have "parseElement
     [''Affine'', '':'', ''['', ''1'', '','', ''2'', '','', ''3'', '','', ''4'', '','',
      ''5'', '','', ''6'', '','', ''7'', '','', ''8'', '','', ''9'', '']''] 0 = None"
    by code_simp
  ultimately show ?thesis by blast
qed

text \<open>
  C3, amended: on a token sequence \<open>Affine : [ m1 ... mk ]\<close>, where \<open>m1 ... mk\<close> are the
  tokens before the first \<open>]\<close>, \<^verbatim>\<open>parseElement\<close> at position 0 succeeds exactly when \<open>k = 9\<close>,
  and then returns exactly these 9 tokens as members; every token between the brackets
  counts, a \<open>,\<close> included. So it succeeds with 9 members on the tokens of
  \<open>Affine: [1 2 3 4 5 6 7 8 9]\<close> (numbers separated by spaces), it fails on the tokens of
  \<open>Affine: [1,2,3,4,5,6,7,8,9]\<close> (17 tokens between the brackets) and it fails on the tokens
  of \<open>Affine: [1,2,3]\<close> (5 tokens).
\<close>

theorem parseElement_Affine_count:
  assumes "'']'' \<notin> set ms"
  shows "parseElement (''Affine'' # '':'' # ''['' # ms @ '']'' # rest) 0 =
           (if length ms = 9 then Some (\<lparr>type_name = ''Affine'', members = ms\<rparr>, length ms + 4)
            else None)"
proof -
  let ?tkn = "''Affine'' # '':'' # ''['' # ms @ '']'' # rest"
  have "scan_members ([''Affine'', '':'', ''[''] @ ms @ '']'' # rest)
          (length [''Affine'', '':'', ''['']) 0 =
        (length [''Affine'', '':'', ''['']  + length ms, 0 + length ms)"
    using assms by (rule scan_members_run)
  then have scan: "scan_members ?tkn (Suc (Suc (Suc 0))) 0 = (Suc (Suc (Suc (length ms))), length ms)"
    by simp
  show ?thesis
    by (simp add: parseElement_def ElementsDefs_def Let_def scan)
qed


text \<open>The nine member tokens \<open>1\<close> to \<open>9\<close> of the example.\<close>

definition one_to_nine :: Tokens where
  "one_to_nine = map (\<lambda>c. [c]) ''123456789''"

theorem parseElement_Affine_count_witness:
  "tokenize ''Affine: [1 2 3 4 5 6 7 8 9]\<newline>'' =
     Inr (''Affine'' # '':'' # ''['' # one_to_nine @ ['']'']) \<and>
   parseElement (''Affine'' # '':'' # ''['' # one_to_nine @ ['']'']) 0 =
     Some (\<lparr>type_name = ''Affine'', members = one_to_nine\<rparr>, 13) \<and>
   length one_to_nine = 9 \<and>
   tokenize ''Affine: [1,2,3]\<newline>'' =
     Inr [''Affine'', '':'', ''['', ''1'', '','', ''2'', '','', ''3'', '']''] \<and>
   parseElement [''Affine'', '':'', ''['', ''1'', '','', ''2'', '','', ''3'', '']''] 0 = None"
proof -
  have "tokenize ''Affine: [1 2 3 4 5 6 7 8 9]\<newline>'' =
     Inr (''Affine'' # '':'' # ''['' # one_to_nine @ ['']''])"
    by code_simp
  moreover have "tokenize ''Affine: [1,2,3]\<newline>'' =
     Inr [''Affine'', '':'', ''['', ''1'', '','', ''2'', '','', ''3'', '']'']"
    by code_simp
  moreover have "parseElement (''Affine'' # '':'' # ''['' # one_to_nine @ ['']'']) 0 =
     Some (\<lparr>type_name = ''Affine'', members = one_to_nine\<rparr>, 13)"
    using parseElement_Affine_count [of one_to_nine "[]"]
    by (simp add: one_to_nine_def)
  moreover have
    "parseElement [''Affine'', '':'', ''['', ''1'', '','', ''2'', '','', ''3'', '']''] 0 = None"
    using parseElement_Affine_count [of "[''1'', '','', ''2'', '','', ''3'']" "[]"]
    by simp
  moreover have "length one_to_nine = 9"
    by (simp add: one_to_nine_def)
  ultimately show ?thesis by blast
qed

section \<open>Claims about the decoding of a statement\<close>

text \<open>
  C6, as the specification states it: \<open>Brush:[0A, 000000010A]\<close> parses to one stroke of
  diameter 10 with one point. Tokenizing that very text reads past its end; on the tokens
  that the text followed by a newline gives, the members are \<open>0A\<close>, \<open>,\<close> and
  \<open>000000010A\<close>: the member \<open>,\<close> is read as point data, leaves one character in
  \<^verbatim>\<open>digits\<close>, and \<^verbatim>\<open>assert(digits.empty())\<close> fails. Without the comma the member
  \<open>000000010A\<close> has 10 characters, two more than one window of 8, and the same assertion fails.
\<close>

theorem parse_Brush_example_counterexample:
  "tokenize ''Brush:[0A, 000000010A]'' = Inl OutOfBounds \<and>
   tokenize ''Brush:[0A, 000000010A]\<newline>'' =
     Inr [''Brush'', '':'', ''['', ''0A'', '','', ''000000010A'', '']''] \<and>
   parse (\<lambda>s. None :: nat option)
     [''Brush'', '':'', ''['', ''0A'', '','', ''000000010A'', '']''] = Inl AssertionFailed \<and>
   parse (\<lambda>s. None :: nat option)
     [''Brush'', '':'', ''['', ''0A'', ''000000010A'', '']''] = Inl AssertionFailed"
proof -
  have "tokenize ''Brush:[0A, 000000010A]'' = Inl OutOfBounds"
    by code_simp
  moreover have "tokenize ''Brush:[0A, 000000010A]\<newline>'' =
     Inr [''Brush'', '':'', ''['', ''0A'', '','', ''000000010A'', '']'']"
    by code_simp
  moreover have "parse (\<lambda>s. None :: nat option)
     [''Brush'', '':'', ''['', ''0A'', '','', ''000000010A'', '']''] = Inl AssertionFailed"
    by code_simp
  moreover have "parse (\<lambda>s. None :: nat option)
     [''Brush'', '':'', ''['', ''0A'', ''000000010A'', '']''] = Inl AssertionFailed"
    by code_simp
  ultimately show ?thesis by blast
qed

lemma parse_elems_Brush_example:
  "parse_elems [''Brush'', '':'', ''['', ''0A'', ''0000010A'', '']''] 0 [] =
     Some ([\<lparr>type_name = ''Brush'', members = [''0A'', ''0000010A'']\<rparr>], 6)"
  by code_simp

lemma parse_main_Brush_example:
  "parse_main \<lparr>type_name = ''Brush'', members = [''0A'', ''0000010A'']\<rparr> =
     Inr [StrokeAtom \<lparr>diameter = 10,
            points = [\<lparr>point_x = 0, point_y = 1, pressure = 10 / 1295\<rparr>]\<rparr>]"
  by code_simp

text \<open>
  C6, amended: parsing the single statement \<open>Brush:[0A 0000010A]\<close> followed by a newline
  (tokenize, then \<^verbatim>\<open>parse\<close>) succeeds and yields exactly one Stroke atom with diameter 10
  (base-36 \<open>0A\<close>) containing exactly one Point with \<open>x = 0\<close>, \<open>y = 1\<close> and pressure
  \<open>10/1295\<close>. The two members are separated by a space, a comma between the brackets being a
  member token itself, and the point data is one window of 8 characters (3 for \<open>x\<close>, 3 for
  \<open>y\<close>, 2 for the pressure). This holds for every table \<open>elementTypeFromString\<close>.
\<close>

theorem parse_Brush_example:
  "tokenize ''Brush:[0A 0000010A]\<newline>'' =
     Inr [''Brush'', '':'', ''['', ''0A'', ''0000010A'', '']''] \<and>
   (\<exists>sk. parse elementTypeFromString [''Brush'', '':'', ''['', ''0A'', ''0000010A'', '']''] =
            Inr (Some sk) \<and>
          atoms sk =
            [StrokeAtom \<lparr>diameter = 10,
               points = [\<lparr>point_x = 0, point_y = 1, pressure = 10 / 1295\<rparr>]\<rparr>])"
proof -
  have "tokenize ''Brush:[0A 0000010A]\<newline>'' =
     Inr [''Brush'', '':'', ''['', ''0A'', ''0000010A'', '']'']"
    by code_simp
  moreover have
    "\<exists>sk. parse elementTypeFromString [''Brush'', '':'', ''['', ''0A'', ''0000010A'', '']''] =
            Inr (Some sk) \<and>
          atoms sk =
            [StrokeAtom \<lparr>diameter = 10,
               points = [\<lparr>point_x = 0, point_y = 1, pressure = 10 / 1295\<rparr>]\<rparr>]"
    by (simp add: parse_def parse_loop.simps [of _ _ 0] parse_loop.simps [of _ _ 7]
          parse_elems_Brush_example parse_main_Brush_example parse_statement_def)
  ultimately show ?thesis by blast
qed

theorem parse_Brush_example_witness:
  "parse (\<lambda>s. None :: nat option) [''Brush'', '':'', ''['', ''0A'', ''0000010A'', '']''] =
     Inr (Some \<lparr>elements = [],
                 atoms = [StrokeAtom \<lparr>diameter = 10,
                   points = [\<lparr>point_x = 0, point_y = 1, pressure = 10 / 1295\<rparr>]\<rparr>]\<rparr>)"
proof -
  from parse_Brush_example [of "\<lambda>s. None :: nat option"]
  obtain sk where sk: "parse (\<lambda>s. None :: nat option)
        [''Brush'', '':'', ''['', ''0A'', ''0000010A'', '']''] = Inr (Some sk)"
    and a: "atoms sk = [StrokeAtom \<lparr>diameter = 10,
               points = [\<lparr>point_x = 0, point_y = 1, pressure = 10 / 1295\<rparr>]\<rparr>]"
    by blast
  have "parse (\<lambda>s. None :: nat option) [''Brush'', '':'', ''['', ''0A'', ''0000010A'', '']''] =
     Inr (Some \<lparr>elements = [],
                 atoms = [StrokeAtom \<lparr>diameter = 10,
                   points = [\<lparr>point_x = 0, point_y = 1, pressure = 10 / 1295\<rparr>]\<rparr>]\<rparr>)"
    by code_simp
  with sk a show ?thesis by simp
qed

section \<open>Claims about the assembly of the scene\<close>

subsection \<open>Statements in declaration order\<close>

text \<open>
  The statements of a token sequence in the order of their declaration, from index \<open>i\<close> up
  to the first \<open>;\<close> that ends a statement: each statement is the list of its elements. This
  is the reading of the specification, against which the accumulation of \<^verbatim>\<open>parse\<close> is
  compared; \<open>None\<close> when an element is rejected or a statement is empty.
\<close>

function statements :: "Tokens \<Rightarrow> nat \<Rightarrow> ElementData list list option" where
  "statements tkn i =
     (if i < length tkn then
        (case parse_elems tkn i [] of
           None \<Rightarrow> None
         | Some (elemsList, i') \<Rightarrow>
             (if elemsList = [] then None
              else if i' < length tkn \<and> tkn ! i' = '';'' then Some [elemsList]
              else map_option ((#) elemsList) (statements tkn (i' + 1))))
      else Some [])"
  by pat_completeness auto
termination
  by (relation "measure (\<lambda>(tkn, i). length tkn - i)")
     (auto dest!: parse_elems_index)

declare statements.simps [simp del]

text \<open>
  What one statement contributes: the atoms of its main element, the modifiers of the
  elements after it, and the grouping element when the type name of the main element is a
  grouping keyword.
\<close>

definition statement_atoms :: "ElementData list \<Rightarrow> Atom list" where
  "statement_atoms elemsList = (case parse_main (hd elemsList) of Inl e \<Rightarrow> [] | Inr as \<Rightarrow> as)"

definition statement_modifiers :: "ElementData list \<Rightarrow> Modifier list" where
  "statement_modifiers elemsList =
     (case parse_modifiers (tl elemsList) [] of Inl e \<Rightarrow> [] | Inr ms \<Rightarrow> ms)"

definition statement_elements :: "(string \<Rightarrow> 'k option) \<Rightarrow> ElementData list \<Rightarrow> 'k Element list" where
  "statement_elements elementTypeFromString elemsList =
     (case elementTypeFromString (type_name (hd elemsList)) of
        None \<Rightarrow> []
      | Some ty \<Rightarrow>
          [\<lparr>elem_type = ty, elem_atoms = statement_atoms elemsList,
            elem_modifiers = statement_modifiers elemsList\<rparr>])"

text \<open>The statements of the whole token sequence; none when it begins with \<open>;\<close>.\<close>

definition statements_of :: "Tokens \<Rightarrow> ElementData list list option" where
  "statements_of tkn = (if tkn \<noteq> [] \<and> tkn ! 0 = '';'' then Some [] else statements tkn 0)"


text \<open>A table for the examples that makes \<open>Data\<close> and \<open>Marker\<close> grouping keywords.\<close>

definition example_table :: "string \<Rightarrow> nat option" where
  "example_table = map_of [(''Data'', 0), (''Marker'', 1)]"

subsection \<open>Order of elements and atoms\<close>

lemma parse_statement_Inr:
  assumes "parse_statement etfs elemsList result = Inr result'"
  shows "elements result' = elements result @ statement_elements etfs elemsList"
    and "atoms result' = statement_atoms elemsList @ atoms result"
  using assms
  by (auto simp add: parse_statement_def statement_elements_def statement_atoms_def
        statement_modifiers_def split: sum.splits option.splits)

lemma parse_loop_order:
  "parse_loop etfs tkn i result = Inr (Some sk) \<Longrightarrow>
   \<exists>stmts. statements tkn i = Some stmts \<and>
     elements sk = elements result @ concat (map (statement_elements etfs) stmts) \<and>
     atoms sk = concat (rev (map statement_atoms stmts)) @ atoms result"
proof (induction etfs tkn i result rule: parse_loop.induct)
  case (1 etfs tkn i result)
  show ?case
  proof (cases "i < length tkn")
    case False
    with "1.prems" show ?thesis
      by (simp add: parse_loop.simps [of etfs tkn i] statements.simps [of tkn i])
  next
    case True
    from "1.prems" True obtain elemsList i' result' where
      pe: "parse_elems tkn i [] = Some (elemsList, i')" and ne: "elemsList \<noteq> []" and
      ps: "parse_statement etfs elemsList result = Inr result'" and
      rest: "(if i' < length tkn \<and> tkn ! i' = '';'' then Inr (Some result')
              else parse_loop etfs tkn (i' + 1) result') = Inr (Some sk)"
      by (simp add: parse_loop.simps [of etfs tkn i] split: option.splits prod.splits
            if_splits sum.splits)
    note el = parse_statement_Inr [OF ps]
    show ?thesis
    proof (cases "i' < length tkn \<and> tkn ! i' = '';''")
      case stop: True
      with rest have "sk = result'" by simp
      moreover from stop True pe ne have "statements tkn i = Some [elemsList]"
        by (simp add: statements.simps [of tkn i])
      ultimately show ?thesis using el by simp
    next
      case go: False
      with rest have "parse_loop etfs tkn (i' + 1) result' = Inr (Some sk)" by simp
      from "1.IH" [OF True pe refl ne ps go this]
      obtain stmts where st: "statements tkn (i' + 1) = Some stmts"
        and e: "elements sk = elements result' @ concat (map (statement_elements etfs) stmts)"
        and a: "atoms sk = concat (rev (map statement_atoms stmts)) @ atoms result'"
        by blast
      from go True pe ne st have "statements tkn i = Some (elemsList # stmts)"
        by (auto simp add: statements.simps [of tkn i])
      then show ?thesis using e a el by simp
    qed
  qed
qed


text \<open>
  C1: whenever \<^verbatim>\<open>parse\<close> succeeds, \<^verbatim>\<open>Sketch.elements\<close> holds the elements of the grouping
  statements in the order of the statements, and \<^verbatim>\<open>Sketch.atoms\<close> is the concatenation of the
  statements' atom lists taken in reverse order of the statements, each list unchanged inside
  (every statement's atoms are put in front of those accumulated so far).
\<close>

theorem parse_order:
  assumes "parse etfs tkn = Inr (Some sk)"
  shows "\<exists>stmts. statements_of tkn = Some stmts \<and>
           elements sk = concat (map (statement_elements etfs) stmts) \<and>
           atoms sk = concat (rev (map statement_atoms stmts))"
proof (cases "tkn \<noteq> [] \<and> tkn ! 0 = '';''")
  case True
  with assms show ?thesis
    by (auto simp add: parse_def statements_of_def)
next
  case False
  with assms have "parse_loop etfs tkn 0 \<lparr>elements = [], atoms = []\<rparr> = Inr (Some sk)"
    by (auto simp add: parse_def split: if_splits)
  from parse_loop_order [OF this] False show ?thesis
    by (auto simp add: statements_of_def)
qed


text \<open>
  The example of the specification, and the same two statements separated by an empty token,
  which the substring test of the statement loop reads as a separator.
\<close>

definition example_sketch :: "nat Sketch" where
  "example_sketch =
     \<lparr>elements =
        [\<lparr>elem_type = 0,
           elem_atoms = [StrokeAtom \<lparr>diameter = 3,
                           points = [\<lparr>point_x = 0, point_y = 1, pressure = 1\<rparr>]\<rparr>],
           elem_modifiers = []\<rparr>,
         \<lparr>elem_type = 1, elem_atoms = [MarkerAtom \<lparr>message = ''hi''\<rparr>],
           elem_modifiers = []\<rparr>],
      atoms =
        [MarkerAtom \<lparr>message = ''hi''\<rparr>,
         StrokeAtom \<lparr>diameter = 3,
           points = [\<lparr>point_x = 0, point_y = 1, pressure = 1\<rparr>]\<rparr>]\<rparr>"

definition example_statements :: "ElementData list list" where
  "example_statements =
     [[\<lparr>type_name = ''Data'', members = [''000001'']\<rparr>],
      [\<lparr>type_name = ''Marker'', members = [''(hi)'']\<rparr>]]"

theorem parse_order_witness:
  "parse example_table
     [''Data'', '':'', ''['', ''000001'', '']'', '','', ''Marker'', '':'', ''(hi)'', '';''] =
     Inr (Some example_sketch) \<and>
   statements_of
     [''Data'', '':'', ''['', ''000001'', '']'', '','', ''Marker'', '':'', ''(hi)'', '';''] =
     Some example_statements \<and>
   parse example_table
     [''Data'', '':'', ''['', ''000001'', '']'', [], ''Marker'', '':'', ''(hi)''] =
     Inr (Some example_sketch) \<and>
   statements_of
     [''Data'', '':'', ''['', ''000001'', '']'', [], ''Marker'', '':'', ''(hi)''] =
     Some example_statements \<and>
   atoms example_sketch = concat (rev (map statement_atoms example_statements)) \<and>
   elements example_sketch =
     concat (map (statement_elements example_table) example_statements) \<and>
   atoms example_sketch =
     [MarkerAtom \<lparr>message = ''hi''\<rparr>,
      StrokeAtom \<lparr>diameter = 3, points = [\<lparr>point_x = 0, point_y = 1, pressure = 1\<rparr>]\<rparr>]"
proof -
  let ?tkn = "[''Data'', '':'', ''['', ''000001'', '']'', '','', ''Marker'', '':'', ''(hi)'', '';'']"
  let ?tkn2 = "[''Data'', '':'', ''['', ''000001'', '']'', [], ''Marker'', '':'', ''(hi)'']"
  have p: "parse example_table ?tkn = Inr (Some example_sketch)"
    by code_simp
  have s: "statements_of ?tkn = Some example_statements"
    by code_simp
  have p2: "parse example_table ?tkn2 = Inr (Some example_sketch)"
    by code_simp
  have s2: "statements_of ?tkn2 = Some example_statements"
    by code_simp
  from parse_order [OF p] s
  have "atoms example_sketch = concat (rev (map statement_atoms example_statements))"
    and "elements example_sketch =
      concat (map (statement_elements example_table) example_statements)"
    by auto
  moreover have "atoms example_sketch =
     [MarkerAtom \<lparr>message = ''hi''\<rparr>,
      StrokeAtom \<lparr>diameter = 3, points = [\<lparr>point_x = 0, point_y = 1, pressure = 1\<rparr>]\<rparr>]"
    by (simp add: example_sketch_def)
  ultimately show ?thesis using p s p2 s2 by blast
qed

subsection \<open>Elements after the first\<close>

lemma parse_modifiers_filter:
  "parse_modifiers rest mods = parse_modifiers (filter (\<lambda>e. type_name e = ''Affine'') rest) mods"
  by (induction rest arbitrary: mods) (auto split: sum.splits)


text \<open>
  C10: in a statement, an element after the first whose type name is not \<open>Affine\<close> adds no
  atom and no modifier and causes no failure: the statement gives the same outcome, error
  or sketch, as the statement without these elements. (That the element is checked by the
  grammar is the loop \<open>parse_elems\<close>, which calls \<^verbatim>\<open>parseElement\<close> on every element of the
  statement before the statement is decoded.)
\<close>

theorem non_Affine_ignored:
  "parse_statement etfs (first # rest) result =
   parse_statement etfs (first # filter (\<lambda>e. type_name e = ''Affine'') rest) result"
  using parse_modifiers_filter [of rest "[]"]
  by (simp add: parse_statement_def split: sum.splits)


theorem non_Affine_ignored_witness:
  "parse_statement example_table
     [\<lparr>type_name = ''Data'', members = [''000001'']\<rparr>,
      \<lparr>type_name = ''Marker'', members = [''(x)'']\<rparr>,
      \<lparr>type_name = ''Data'', members = [''zz'']\<rparr>] \<lparr>elements = [], atoms = []\<rparr> =
   parse_statement example_table
     [\<lparr>type_name = ''Data'', members = [''000001'']\<rparr>] \<lparr>elements = [], atoms = []\<rparr> \<and>
   parse example_table
     [''Data'', '':'', ''['', ''000001'', '']'', ''Marker'', '':'', ''(x)'',
      ''Data'', '':'', ''['', ''zz'', '']''] =
   Inr (Some
     \<lparr>elements =
        [\<lparr>elem_type = 0,
           elem_atoms = [StrokeAtom \<lparr>diameter = 3,
                           points = [\<lparr>point_x = 0, point_y = 1, pressure = 1\<rparr>]\<rparr>],
           elem_modifiers = []\<rparr>],
      atoms = [StrokeAtom \<lparr>diameter = 3,
                 points = [\<lparr>point_x = 0, point_y = 1, pressure = 1\<rparr>]\<rparr>]\<rparr>) \<and>
   parse_elems
     [''Data'', '':'', ''['', ''000001'', '']'', ''Marker'', '':'', ''(x)'',
      ''Data'', '':'', ''['', ''zz'', '']''] 0 [] =
   Some ([\<lparr>type_name = ''Data'', members = [''000001'']\<rparr>,
          \<lparr>type_name = ''Marker'', members = [''(x)'']\<rparr>,
          \<lparr>type_name = ''Data'', members = [''zz'']\<rparr>], 13)"
proof -
  have "parse_statement example_table
     [\<lparr>type_name = ''Data'', members = [''000001'']\<rparr>,
      \<lparr>type_name = ''Marker'', members = [''(x)'']\<rparr>,
      \<lparr>type_name = ''Data'', members = [''zz'']\<rparr>] \<lparr>elements = [], atoms = []\<rparr> =
   parse_statement example_table
     [\<lparr>type_name = ''Data'', members = [''000001'']\<rparr>] \<lparr>elements = [], atoms = []\<rparr>"
    using non_Affine_ignored [of example_table
      "\<lparr>type_name = ''Data'', members = [''000001'']\<rparr>"
      "[\<lparr>type_name = ''Marker'', members = [''(x)'']\<rparr>,
        \<lparr>type_name = ''Data'', members = [''zz'']\<rparr>]" "\<lparr>elements = [], atoms = []\<rparr>"]
    by simp
  moreover have "parse example_table
     [''Data'', '':'', ''['', ''000001'', '']'', ''Marker'', '':'', ''(x)'',
      ''Data'', '':'', ''['', ''zz'', '']''] =
   Inr (Some
     \<lparr>elements =
        [\<lparr>elem_type = 0,
           elem_atoms = [StrokeAtom \<lparr>diameter = 3,
                           points = [\<lparr>point_x = 0, point_y = 1, pressure = 1\<rparr>]\<rparr>],
           elem_modifiers = []\<rparr>],
      atoms = [StrokeAtom \<lparr>diameter = 3,
                 points = [\<lparr>point_x = 0, point_y = 1, pressure = 1\<rparr>]\<rparr>]\<rparr>)"
    by code_simp
  moreover have "parse_elems
     [''Data'', '':'', ''['', ''000001'', '']'', ''Marker'', '':'', ''(x)'',
      ''Data'', '':'', ''['', ''zz'', '']''] 0 [] =
   Some ([\<lparr>type_name = ''Data'', members = [''000001'']\<rparr>,
          \<lparr>type_name = ''Marker'', members = [''(x)'']\<rparr>,
          \<lparr>type_name = ''Data'', members = [''zz'']\<rparr>], 13)"
    by code_simp
  ultimately show ?thesis by blast
qed

section \<open>Claims about the numeric codec\<close>

text \<open>
  The unsigned value \<open>v\<close> of a base-36 string, as the specification defines it: the digits
  \<open>0-9\<close> count 0 to 9 and the letters, in either case, 10 to 35.
\<close>

definition value36 :: "string \<Rightarrow> int" where
  "value36 s = foldl (\<lambda>v c. 36 * v + digit36 c) 0 s"

lemma digit36_range: "isBase36 c \<Longrightarrow> 0 \<le> digit36 c \<and> digit36 c \<le> 35"
  by (auto simp add: isBase36_def isBase10_def isLowercase_def isUppercase_def digit36_def)

lemma base36_digits_foldl:
  "\<forall>c\<in>set s. isBase36 c \<Longrightarrow>
   base36_digits s (word_of_int a) = Inr (word_of_int (foldl (\<lambda>v c. 36 * v + digit36 c) a s))"
proof (induction s arbitrary: a)
  case Nil
  show ?case by simp
next
  case (Cons c s)
  have "36 * word_of_int a + word_of_int (digit36 c) = (word_of_int (36 * a + digit36 c) :: 'a word)"
    by simp
  with Cons show ?case by (simp del: of_int_add of_int_mult)
qed

lemma foldl36_bounds:
  "\<forall>c\<in>set s. isBase36 c \<Longrightarrow> 0 \<le> a \<Longrightarrow>
   0 \<le> foldl (\<lambda>v c. 36 * v + digit36 c) a s \<and>
   foldl (\<lambda>v c. 36 * v + digit36 c) a s < (a + 1) * 36 ^ length s"
proof (induction s arbitrary: a)
  case Nil
  then show ?case by simp
next
  case (Cons c s)
  from Cons.prems digit36_range [of c] have d: "0 \<le> digit36 c" "digit36 c \<le> 35"
    by simp_all
  with Cons.prems have a': "0 \<le> 36 * a + digit36 c" by simp
  from Cons.IH [OF _ a'] Cons.prems
  have nonneg: "0 \<le> foldl (\<lambda>v c. 36 * v + digit36 c) (36 * a + digit36 c) s"
    and lt: "foldl (\<lambda>v c. 36 * v + digit36 c) (36 * a + digit36 c) s
          < (36 * a + digit36 c + 1) * 36 ^ length s"
    by simp_all
  have le: "(36 * a + digit36 c + 1) * 36 ^ length s \<le> (36 * a + 36) * 36 ^ length s"
    using d by (intro mult_right_mono) simp_all
  have "foldl (\<lambda>v c. 36 * v + digit36 c) (36 * a + digit36 c) s
      < (36 * a + 36) * 36 ^ length s"
    using lt le by (rule less_le_trans)
  moreover have "(36 * a + 36) * 36 ^ length s = (a + 1) * 36 ^ length (c # s)"
    by (simp add: algebra_simps)
  ultimately show ?case using nonneg by simp
qed

lemma value36_bounds:
  "\<forall>c\<in>set s. isBase36 c \<Longrightarrow> 0 \<le> value36 s \<and> value36 s < 36 ^ length s"
  using foldl36_bounds [of s 0] by (simp add: value36_def)

lemma sint_word_of_int_small:
  "- (2 ^ (LENGTH('a::len) - 1)) \<le> k \<Longrightarrow> k < 2 ^ (LENGTH('a) - 1) \<Longrightarrow>
   sint (word_of_int k :: 'a word) = k"
  by (simp add: signed_of_int signed_take_bit_int_eq_self)

text \<open>
  For every width \<open>N \<le> 6\<close>, where \<open>36^N\<close> fits the 32 bits of \<^verbatim>\<open>exp\<close>, and every result
  type with \<open>36^N \<le> 2^bits\<close>, the code decodes as the specification says: \<open>v\<close> below the
  midpoint \<open>36^N/2\<close> and \<open>v - 36^N\<close> from the midpoint on. A string shorter than \<open>N\<close> is
  covered too.
\<close>

lemma base36_signed_decode:
  fixes s :: string
  assumes N: "N \<le> 6" and fits: "(36::int) ^ N \<le> 2 ^ LENGTH('a::len)"
    and len: "length s \<le> N" and dig: "\<forall>c\<in>set s. isBase36 c"
  shows "\<exists>r :: 'a word. base36 True N s = Inr r \<and>
           sint r = (if value36 s < 36 ^ N div 2 then value36 s else value36 s - 36 ^ N)"
proof -
  define v where "v = value36 s"
  define E :: int where "E = 36 ^ N"
  define P :: int where "P = 2 ^ (LENGTH('a) - 1)"
  have pw: "(36::int) ^ length s \<le> 36 ^ N"
    using len by (intro power_increasing) simp_all
  have v: "0 \<le> v" "v < E"
    using value36_bounds [OF dig] pw unfolding v_def E_def by linarith+
  have "(36::int) ^ N \<le> 36 ^ 6"
    using N by (intro power_increasing) simp_all
  then have E32: "E < 2 ^ 32"
    by (simp add: E_def)
  have E0: "0 < E"
    by (simp add: E_def)
  have "(2::int) ^ LENGTH('a) = 2 ^ Suc (LENGTH('a) - 1)"
    by simp
  then have twoP: "(2::int) ^ LENGTH('a) = 2 * P"
    unfolding P_def by (simp only: power_Suc)
  have EP: "E \<le> 2 * P"
    using fits twoP by (simp add: E_def)
  have P0: "0 < P"
    by (simp add: P_def)
  have digits: "base36_digits s 0 = Inr (word_of_int v :: 'a word)"
    using base36_digits_foldl [OF dig, of 0] by (simp add: v_def value36_def)
  have exp: "uint (pow 36 N :: 32 word) = E"
  proof -
    have "(pow 36 N :: 32 word) = word_of_int E"
      by (simp add: pow_def E_def)
    then have "uint (pow 36 N :: 32 word) = E mod 2 ^ 32"
      by (simp add: uint_word_of_int)
    then show ?thesis using E0 E32 by simp
  qed
  have exp2: "uint ((pow 36 N :: 32 word) div 2) = E div 2"
    by (simp add: uint_div exp)
  have uc: "(ucast (pow 36 N :: 32 word) :: 'a word) = word_of_int E"
    by (simp add: ucast_eq exp)
  have sw: "\<And>k. - P \<le> k \<Longrightarrow> k < P \<Longrightarrow> sint (word_of_int k :: 'a word) = k"
    unfolding P_def by (rule sint_word_of_int_small)
  have small: "v < P \<Longrightarrow> sint (word_of_int v :: 'a word) = v"
    using v P0 by (intro sw) simp_all
  have ge: "ge_unsigned (word_of_int v :: 'a word) ((pow 36 N :: 32 word) div 2) \<longleftrightarrow> E div 2 \<le> v"
  proof (cases "LENGTH('a) \<le> 32")
    case le32: True
    then have "(2::int) ^ (LENGTH('a) - 1) \<le> 2 ^ 31"
      by (intro power_increasing) simp_all
    then have P31: "P \<le> 2 ^ 31" by (simp add: P_def)
    show ?thesis
    proof (cases "v < P")
      case True
      have "v mod 2 ^ 32 = v"
        using v E32 by simp
      with small [OF True] le32 show ?thesis
        by (simp add: ge_unsigned_def exp2)
    next
      case False
      have "(word_of_int (v - 2 * P) :: 'a word) = word_of_int v - word_of_int (2 ^ LENGTH('a))"
        by (simp add: twoP)
      then have w: "(word_of_int v :: 'a word) = word_of_int (v - 2 * P)"
        by (simp only: word_of_int_2p_len) simp
      have "sint (word_of_int (v - 2 * P) :: 'a word) = v - 2 * P"
        using False v EP P0 by (intro sw) simp_all
      with w have sv: "sint (word_of_int v :: 'a word) = v - 2 * P"
        by simp
      have "(v - 2 * P) mod 2 ^ 32 = (v - 2 * P + 2 ^ 32) mod 2 ^ 32"
        by simp
      also have "\<dots> = v - 2 * P + 2 ^ 32"
        using False v EP P31 by (intro mod_pos_pos_trivial) simp_all
      finally have m: "sint (word_of_int v :: 'a word) mod 2 ^ 32 = v - 2 * P + 2 ^ 32"
        using sv by simp
      have "E div 2 \<le> v - 2 * P + 2 ^ 32"
        using False P31 E32 by simp
      moreover have "E div 2 \<le> v"
        using False EP by simp
      ultimately show ?thesis using le32 m
        by (simp add: ge_unsigned_def exp2)
    qed
  next
    case gt32: False
    then have "(2::int) ^ 32 \<le> 2 ^ (LENGTH('a) - 1)"
      by (intro power_increasing) simp_all
    then have "v < P" using v E32 by (simp add: P_def)
    from small [OF this] gt32 show ?thesis
      by (simp add: ge_unsigned_def exp2)
  qed
  show ?thesis
  proof (cases "E div 2 \<le> v")
    case True
    have "(word_of_int v - word_of_int E :: 'a word) = word_of_int (v - E)"
      by simp
    moreover have "sint (word_of_int (v - E) :: 'a word) = v - E"
      using True v EP P0 by (intro sw) simp_all
    ultimately have "sint (word_of_int v - word_of_int E :: 'a word) = v - E"
      by simp
    with True ge show ?thesis
      using len by (simp add: base36_def digits uc v_def [symmetric] E_def [symmetric])
  next
    case False
    then have "v < P" using EP by simp
    from small [OF this] False ge show ?thesis
      using len by (simp add: base36_def digits uc v_def [symmetric] E_def [symmetric])
  qed
qed

text \<open>The instance of the code, \<^verbatim>\<open>base36<3,int16_t>\<close>, on strings of exactly 3 digits.\<close>

lemma base36_int16_decode:
  assumes "length s = 3" and "\<forall>c\<in>set s. isBase36 c"
  shows "\<exists>r :: 16 word. base36 True 3 s = Inr r \<and>
           sint r = (if value36 s < 23328 then value36 s else value36 s - 46656)"
  using base36_signed_decode [where 'a = 16, of 3 s] assms by (simp split: if_splits)

text \<open>
  C5: the specification promises \<open>v\<close> or \<open>v - 36^N\<close> for every width \<open>N\<close> and signed type
  \<open>T\<close> that the \<^verbatim>\<open>static_assert\<close> admits (\<open>36^N \<le> 2^bits\<close>). \<^verbatim>\<open>exp\<close> is declared
  \<^verbatim>\<open>unsigned\<close> whatever \<open>T\<close> is, so from \<open>N = 7\<close> on it holds \<open>36^N\<close> modulo \<open>2^32\<close>. With
  \<open>N = 7\<close> and a 64-bit \<open>T\<close> the string \<open>1000000\<close> has the value \<open>36^6 = 2176782336\<close>, below
  the midpoint \<open>36^7/2\<close>, and the code returns \<open>1122029568\<close>.
\<close>

theorem base36_exp_truncated:
  "(base36 True 7 ''1000000'' :: error + 64 word) = Inr 1122029568 \<and>
   sint (1122029568 :: 64 word) = 1122029568 \<and>
   value36 ''1000000'' = 2176782336 \<and>
   value36 ''1000000'' < 36 ^ 7 div 2 \<and>
   (36 :: int) ^ 7 \<le> 2 ^ LENGTH(64)"
proof -
  have "(base36 True 7 ''1000000'' :: error + 64 word) = Inr 1122029568"
    by code_simp
  moreover have "value36 ''1000000'' = 2176782336"
    by (simp add: value36_def digit36_def isBase10_def)
  ultimately show ?thesis by simp
qed

section \<open>Claims about the raw format\<close>

subsection \<open>Words, windows and lines of a text\<close>

text \<open>
  The words of a text, in order: the maximal runs of characters that are not white space
  (\<open>words_from w cs\<close> continues the word \<open>w\<close> begun before \<open>cs\<close>).
\<close>

fun words_from :: "string \<Rightarrow> string \<Rightarrow> string list" where
  "words_from w [] = (if w = [] then [] else [w])"
| "words_from w (c # cs) =
     (if isWhitespace c then (if w = [] then words_from [] cs else w # words_from [] cs)
      else words_from (w @ [c]) cs)"

definition raw_words :: "string \<Rightarrow> string list" where
  "raw_words inp = words_from [] inp"

text \<open>
  The windows of 4 characters of a word, in order, and the point that one window decodes to:
  2 base-36 digits for \<open>x\<close> and 2 for \<open>y\<close>.
\<close>

fun windows4 :: "string \<Rightarrow> string list" where
  "windows4 (a # b # c # d # rest) = [a, b, c, d] # windows4 rest"
| "windows4 rest = []"

definition window_point :: "string \<Rightarrow> RawPoint" where
  "window_point w =
     \<lparr>raw_x = word_of_int (value36 (take 2 w)), raw_y = word_of_int (value36 (drop 2 w))\<rparr>"

definition word_stroke :: "string \<Rightarrow> RawStroke" where
  "word_stroke w = \<lparr>raw_points = map window_point (windows4 w)\<rparr>"


text \<open>
  The non-blank lines of a text: the maximal runs of characters other than the line feed that
  hold a character other than white space.
\<close>

fun lines_from :: "string \<Rightarrow> string \<Rightarrow> string list" where
  "lines_from l [] = [l]"
| "lines_from l (c # cs) =
     (if c = CHR 0x0A then l # lines_from [] cs else lines_from (l @ [c]) cs)"

definition nonblank_lines :: "string \<Rightarrow> string list" where
  "nonblank_lines inp = filter (\<lambda>l. \<not> list_all isWhitespace l) (lines_from [] inp)"

subsection \<open>One stroke for each word\<close>

lemma base36_two_digits:
  assumes "isBase36 a" and "isBase36 b"
  shows "base36 True 3 [a, b] = Inr (word_of_int (value36 [a, b]) :: 16 word)"
proof -
  from assms have dig: "\<forall>c\<in>set [a, b]. isBase36 c" by simp
  from base36_signed_decode [where 'a = 16, of 3 "[a, b]", OF _ _ _ dig]
  obtain r :: "16 word" where r: "base36 True 3 [a, b] = Inr r"
    and s: "sint r = (if value36 [a, b] < 36 ^ 3 div 2 then value36 [a, b]
                      else value36 [a, b] - 36 ^ 3)"
    by auto
  from value36_bounds [OF dig] have "value36 [a, b] < 36 ^ 3 div 2" by simp
  with s have "sint r = value36 [a, b]" by simp
  moreover have "word_of_int (sint r) = r" by simp
  ultimately have "word_of_int (value36 [a, b]) = r"
    by simp
  with r show ?thesis by simp
qed

lemma stroke_loop_windows:
  "\<forall>c\<in>set w. isBase36 c \<Longrightarrow> length w mod 4 = 0 \<Longrightarrow>
   stroke_loop (pre @ w) (length pre) pts = Inr (pts @ map window_point (windows4 w))"
proof (induction w arbitrary: pre pts rule: windows4.induct)
  case (1 a b c d rest)
  let ?line = "pre @ a # b # c # d # rest"
  have sx: "substr ?line (length pre) 2 = Inr [a, b]"
    and sy: "substr ?line (Suc (Suc (length pre))) 2 = Inr [c, d]"
    by (simp_all add: substr_def)
  have bx: "base36 True 3 [a, b] = Inr (word_of_int (value36 [a, b]) :: 16 word)"
    and by': "base36 True 3 [c, d] = Inr (word_of_int (value36 [c, d]) :: 16 word)"
    using "1.prems" by (simp_all add: base36_two_digits)
  have four: "length pre + 4 = Suc (Suc (Suc (Suc (length pre))))"
    by simp
  have "stroke_loop ?line (length pre) pts =
        stroke_loop ((pre @ [a, b, c, d]) @ rest) (length (pre @ [a, b, c, d]))
          (pts @ [window_point [a, b, c, d]])"
    by (simp add: stroke_loop.simps [of ?line "length pre"] sx sy bx by' window_point_def four)
  also have "\<dots> = Inr ((pts @ [window_point [a, b, c, d]]) @ map window_point (windows4 rest))"
    using "1.prems" by (intro "1.IH") simp_all
  finally show ?case by simp
next
  case "2_1"
  show ?case by (simp add: stroke_loop.simps [of pre "length pre"])
next
  case "2_2"
  then show ?case by simp
next
  case "2_3"
  then show ?case by simp
next
  case "2_4"
  then show ?case by simp
qed

lemma isspace_not_isBase36: "isspace c \<Longrightarrow> \<not> isBase36 c"
  by (auto simp add: isspace_def isAny_def isBase36_def isBase10_def isLowercase_def
        isUppercase_def)

lemma isWhitespace_isspace: "isWhitespace c \<Longrightarrow> isspace c"
  by (auto simp add: isspace_def isWhitespace_def isAny_def)

lemma verify_skip_space:
  "verify_loop st inp \<Longrightarrow> st = S0 \<or> st = Y2 \<Longrightarrow>
   \<exists>st'. (st' = S0 \<or> st' = Y2) \<and> verify_loop st' (dropWhile isspace inp) \<and>
         words_from [] inp = words_from [] (dropWhile isspace inp)"
proof (induction inp arbitrary: st)
  case Nil
  then show ?case by auto
next
  case (Cons c cs)
  show ?case
  proof (cases "isspace c")
    case True
    then have nb: "\<not> isBase36 c" by (rule isspace_not_isBase36)
    with Cons.prems have ws: "isWhitespace c" and v: "verify_loop S0 cs"
      by (auto split: if_splits)
    from Cons.IH [OF v] obtain st' where st': "st' = S0 \<or> st' = Y2"
      and v': "verify_loop st' (dropWhile isspace cs)"
      and w': "words_from [] cs = words_from [] (dropWhile isspace cs)"
      by blast
    have d: "dropWhile isspace (c # cs) = dropWhile isspace cs"
      using True by simp
    have "words_from [] (c # cs) = words_from [] cs"
      using ws by simp
    with w' have "words_from [] (c # cs) = words_from [] (dropWhile isspace (c # cs))"
      by (simp only: d)
    moreover from v' have "verify_loop st' (dropWhile isspace (c # cs))"
      by (simp only: d)
    ultimately show ?thesis
      using st' by blast
  next
    case False
    then have "dropWhile isspace (c # cs) = c # cs"
      by simp
    with Cons.prems show ?thesis
      by (intro exI [of _ st]) (simp only: simp_thms)
  qed
qed

lemma verify_line_isBase36:
  "verify_loop st (line @ rest) \<Longrightarrow> \<forall>c\<in>set line. \<not> isspace c \<Longrightarrow>
   \<forall>c\<in>set line. isBase36 c"
proof (induction line arbitrary: st)
  case Nil
  show ?case by simp
next
  case (Cons c line)
  have c: "isBase36 c"
  proof (rule ccontr)
    assume "\<not> isBase36 c"
    with Cons.prems(1) have "isWhitespace c"
      by (auto split: if_splits)
    with Cons.prems(2) show False
      by (auto dest: isWhitespace_isspace)
  qed
  with Cons.prems(1) obtain st' where "verify_loop st' (line @ rest)"
    by auto
  from Cons.IH [OF this] Cons.prems(2) c show ?case by simp
qed

lemma verify_loop_four:
  assumes "isBase36 a" "isBase36 b" "isBase36 c" "isBase36 d" and "st = S0 \<or> st = Y2"
  shows "verify_loop st (a # b # c # d # cs) = verify_loop Y2 cs"
  using assms by auto

lemma verify_loop_stuck:
  assumes "r = [] \<or> \<not> isBase36 (hd r)" and "st = X1 \<or> st = X2 \<or> st = Y1"
  shows "\<not> verify_loop st r"
  using assms by (cases r) auto

lemma verify_run:
  "\<forall>c\<in>set w. isBase36 c \<Longrightarrow> r = [] \<or> \<not> isBase36 (hd r) \<Longrightarrow> st = S0 \<or> st = Y2 \<Longrightarrow>
   verify_loop st (w @ r) \<Longrightarrow>
   length w mod 4 = 0 \<and> verify_loop (if w = [] then st else Y2) r"
proof (induction w arbitrary: st rule: windows4.induct)
  case (1 a b c d rest)
  from "1.prems" have "verify_loop Y2 (rest @ r)"
    using verify_loop_four [of a b c d st "rest @ r"] by simp
  from "1.IH" [OF _ "1.prems"(2) _ this] "1.prems"(1) show ?case
    by (simp split: if_splits)
next
  case "2_1"
  then show ?case by simp
next
  case "2_2"
  from "2_2.prems" have "verify_loop X1 r" by auto
  with verify_loop_stuck [OF "2_2.prems"(2), of X1] show ?case by simp
next
  case "2_3"
  from "2_3.prems" have "verify_loop X2 r" by auto
  with verify_loop_stuck [OF "2_3.prems"(2), of X2] show ?case by simp
next
  case "2_4"
  from "2_4.prems" have "verify_loop Y1 r" by auto
  with verify_loop_stuck [OF "2_4.prems"(2), of Y1] show ?case by simp
qed

lemma words_from_run:
  "\<forall>c\<in>set line. \<not> isWhitespace c \<Longrightarrow> words_from acc (line @ rest) = words_from (acc @ line) rest"
  by (induction line arbitrary: acc) simp_all

lemma words_from_break:
  "w \<noteq> [] \<Longrightarrow> rest = [] \<or> isWhitespace (hd rest) \<Longrightarrow> words_from w rest = w # words_from [] rest"
  by (cases rest) auto

lemma RawFormat_parse_loop_words:
  "verify_loop st inp \<Longrightarrow> st = S0 \<or> st = Y2 \<Longrightarrow>
   RawFormat_parse_loop inp result =
     Inr \<lparr>strokes = strokes result @ map word_stroke (raw_words inp)\<rparr>"
proof (induction inp result arbitrary: st rule: RawFormat_parse_loop.induct)
  case (1 inp1 result)
  define s where "s = dropWhile isspace inp1"
  from verify_skip_space [OF "1.prems"] obtain st' where st': "st' = S0 \<or> st' = Y2"
    and vs: "verify_loop st' s" and ws: "words_from [] inp1 = words_from [] s"
    by (auto simp add: s_def)
  show ?case
  proof (cases "s = []")
    case True
    with ws show ?thesis
      by (simp add: RawFormat_parse_loop.simps [of inp1] s_def [symmetric] raw_words_def)
  next
    case False
    define line where "line = takeWhile (\<lambda>c. \<not> isspace c) s"
    define rest where "rest = dropWhile (\<lambda>c. \<not> isspace c) s"
    have split: "s = line @ rest"
      by (simp add: line_def rest_def)
    have "\<not> isspace (hd s)"
      using False hd_dropWhile [of isspace inp1] by (simp add: s_def)
    with False have line_ne: "line \<noteq> []"
      by (cases s) (auto simp add: line_def)
    have nosp: "\<forall>c\<in>set line. \<not> isspace c"
      by (auto simp add: line_def dest: set_takeWhileD)
    have rest_sp: "rest = [] \<or> isspace (hd rest)"
      using hd_dropWhile [of "\<lambda>c. \<not> isspace c" s] by (auto simp add: rest_def)
    from vs have vlr: "verify_loop st' (line @ rest)"
      by (simp add: split)
    from verify_line_isBase36 [OF vlr nosp] have b36: "\<forall>c\<in>set line. isBase36 c" .
    from rest_sp have rest_nb: "rest = [] \<or> \<not> isBase36 (hd rest)"
      by (auto dest: isspace_not_isBase36)
    from verify_run [OF b36 rest_nb st' vlr] line_ne
    have len4: "length line mod 4 = 0" and vrest: "verify_loop Y2 rest"
      by simp_all
    from stroke_loop_windows [OF b36 len4, of "[]" "[]"]
    have sl: "stroke_loop line 0 [] = Inr (map window_point (windows4 line))"
      by simp
    have rest_ws: "rest = [] \<or> isWhitespace (hd rest)"
    proof (cases rest)
      case Nil
      then show ?thesis by simp
    next
      case (Cons x xs)
      with rest_nb vrest show ?thesis
        by (auto split: if_splits)
    qed
    have "\<forall>c\<in>set line. \<not> isWhitespace c"
      using nosp by (auto dest: isWhitespace_isspace)
    from words_from_run [OF this, of "[]" rest] words_from_break [OF line_ne rest_ws]
    have "words_from [] s = line # words_from [] rest"
      by (simp add: split)
    with ws have words: "raw_words inp1 = line # raw_words rest"
      by (simp add: raw_words_def)
    have "RawFormat_parse_loop inp1 result =
          RawFormat_parse_loop rest
            (result\<lparr>strokes := strokes result @ [\<lparr>raw_points = map window_point (windows4 line)\<rparr>]\<rparr>)"
      using False
      by (simp add: RawFormat_parse_loop.simps [of inp1] s_def [symmetric] line_def [symmetric]
            rest_def [symmetric] sl Let_def)
    also have "\<dots> = Inr \<lparr>strokes =
        strokes (result\<lparr>strokes := strokes result @ [\<lparr>raw_points = map window_point (windows4 line)\<rparr>]\<rparr>)
          @ map word_stroke (raw_words rest)\<rparr>"
      using "1.IH" [OF s_def False line_def rest_def sl vrest] by simp
    finally show ?thesis
      by (simp add: words word_stroke_def)
  qed
qed


text \<open>
  C9, as the specification states it: \<^verbatim>\<open>RawFormat::parse\<close> produces one RawStroke for each
  non-blank line, so that two groups of 4 digits separated by a space on one line belong to
  one stroke. The text \<open>0A0B 1C1D\<close> inp1 accepted by \<^verbatim>\<open>verify\<close> and inp1 one line; the
  extraction \<^verbatim>\<open>is >> std::ws >> line\<close> reads one white-space-separated word at a time, and
  the code produces two strokes of one point each.
\<close>

theorem RawFormat_parse_lines_counterexample:
  "RawFormat_verify ''0A0B 1C1D'' \<and>
   nonblank_lines ''0A0B 1C1D'' = [''0A0B 1C1D''] \<and>
   RawFormat_parse ''0A0B 1C1D'' =
     Inr \<lparr>strokes = [\<lparr>raw_points = [\<lparr>raw_x = 10, raw_y = 11\<rparr>]\<rparr>,
                    \<lparr>raw_points = [\<lparr>raw_x = 48, raw_y = 49\<rparr>]\<rparr>]\<rparr>"
proof -
  have "RawFormat_verify ''0A0B 1C1D''"
    by code_simp
  moreover have "nonblank_lines ''0A0B 1C1D'' = [''0A0B 1C1D'']"
    by code_simp
  moreover have "RawFormat_parse ''0A0B 1C1D'' =
     Inr \<lparr>strokes = [\<lparr>raw_points = [\<lparr>raw_x = 10, raw_y = 11\<rparr>]\<rparr>,
                    \<lparr>raw_points = [\<lparr>raw_x = 48, raw_y = 49\<rparr>]\<rparr>]\<rparr>"
    by code_simp
  ultimately show ?thesis by blast
qed

text \<open>
  C9, amended: for every text accepted by \<^verbatim>\<open>RawFormat::verify\<close>, \<^verbatim>\<open>RawFormat::parse\<close>
  succeeds and produces exactly one RawStroke for each white-space-separated word of the text
  (a maximal run of characters that are not white space), in the order of the text, with the
  windows of 4 characters of that word decoded in order into the points of that stroke (2
  base-36 digits \<open>x\<close>, 2 base-36 digits \<open>y\<close>). Two groups of 4 digits separated by white space
  are two strokes, on one line or not.
\<close>

theorem RawFormat_parse_words:
  assumes "RawFormat_verify inp"
  shows "RawFormat_parse inp = Inr \<lparr>strokes = map word_stroke (raw_words inp)\<rparr>"
  using RawFormat_parse_loop_words [of S0 inp "\<lparr>strokes = []\<rparr>"] assms
  by (simp add: RawFormat_verify_def RawFormat_parse_def)


theorem RawFormat_parse_words_witness:
  "RawFormat_verify ''0A0B1C1D zz00\<newline>0001'' \<and>
   raw_words ''0A0B1C1D zz00\<newline>0001'' = [''0A0B1C1D'', ''zz00'', ''0001''] \<and>
   RawFormat_parse ''0A0B1C1D zz00\<newline>0001'' =
     Inr \<lparr>strokes =
            [\<lparr>raw_points = [\<lparr>raw_x = 10, raw_y = 11\<rparr>, \<lparr>raw_x = 48, raw_y = 49\<rparr>]\<rparr>,
             \<lparr>raw_points = [\<lparr>raw_x = 1295, raw_y = 0\<rparr>]\<rparr>,
             \<lparr>raw_points = [\<lparr>raw_x = 0, raw_y = 1\<rparr>]\<rparr>]\<rparr>"
proof -
  have v: "RawFormat_verify ''0A0B1C1D zz00\<newline>0001''"
    by code_simp
  have w: "raw_words ''0A0B1C1D zz00\<newline>0001'' = [''0A0B1C1D'', ''zz00'', ''0001'']"
    by code_simp
  have s: "map word_stroke [''0A0B1C1D'', ''zz00'', ''0001''] =
            [\<lparr>raw_points = [\<lparr>raw_x = 10, raw_y = 11\<rparr>, \<lparr>raw_x = 48, raw_y = 49\<rparr>]\<rparr>,
             \<lparr>raw_points = [\<lparr>raw_x = 1295, raw_y = 0\<rparr>]\<rparr>,
             \<lparr>raw_points = [\<lparr>raw_x = 0, raw_y = 1\<rparr>]\<rparr>]"
    by code_simp
  from RawFormat_parse_words [OF v] w s v show ?thesis
    by simp
qed

end
